(* ===== verification/Prelude.thy ===== *)
theory Prelude
  imports Main
begin

text \<open>
  Shared vocabulary of the development. A Python iterator's \<open>__next__\<close> has three
  outcomes, modelled by \<open>pull\<close>: it returns a value (and the iterator's new state), it
  raises \<open>StopIteration\<close> (with the state after the attempt), or it raises another
  exception, after which the state is unspecified. Python values that the code compares
  with a string sentinel are \<open>pyobj\<close>. The collection \<open>iter_simps\<close> gathers the
  equations that unfold one call of a modelled source; the component proofs use it.
\<close>

named_theorems iter_simps "equations that unfold one __next__ call of a modelled iterator"

datatype ('a, 's, 'e) pull = Yield 'a 's | Stop 's | Raise 'e

type_synonym ('s, 'a, 'e) next_fn = "'s \<Rightarrow> ('a, 's, 'e) pull"

datatype 'a pyobj = PyNone | PyInt int | PyStr string | PyObj 'a

end
