(* ===== verification/Iterator.thy ===== *)
theory Iterator
  imports Prelude
begin

text \<open>
  The resumable iterator protocol that \<open>extras.py\<close> builds on. \<open>base.py\<close> and
  \<open>iter_dispatch.py\<close> are not among the sources, so this theory follows the spec:
  \<^item> \<open>list_iter\<close> is the iterator \<open>_iter(seq)\<close> returns (\<open>iter_seq\<close>) for a sequence: the sequence and
    a position, advanced by each \<open>__next__\<close> (\<open>list_iter_next\<close>);
  \<^item> \<open>drain\<close> is Python's \<open>list(it)\<close>: call \<open>__next__\<close> until \<open>StopIteration\<close>, which
    need not happen, so it is a \<^theory_text>\<open>partial_function (option)\<close> and \<open>None\<close> is
    "never returns";
  \<^item> \<open>produces nxt s ys\<close> is the contract a well-behaved source meets: from state \<open>s\<close>
    it yields exactly \<open>ys\<close> and then signals exhaustion for good; \<open>raises nxt s ys e\<close>
    is a source that yields \<open>ys\<close> and then raises \<open>e\<close>.
  \<open>reachable nxt s0 s\<close> says that \<open>s\<close> is a state of the iterator after some
  calls of \<open>__next__\<close> from \<open>s0\<close>. \<open>gen_iter\<close> is an upstream source that fails: a
  generator that yields its items and then raises \<open>e\<close> (or stops, when there is no
  exception); it is not code of the repository, only a test source for the fault path.
  \<open>flaky_iter\<close> is a source whose exhaustion is not final: it yields its first items,
  signals \<open>StopIteration\<close> once, then yields more (an iterator over a queue that is
  refilled); the Python protocol calls such iterators broken, and the spec's claims about
  the last chunk assume they do not occur.
  \<open>advance nxt k s\<close> is a consumer that calls \<open>next()\<close> \<open>k\<close> times and keeps the
  iterator: the values and the state after them, or \<open>None\<close> if a call did not return
  a value.
  The chunking transformers are stated against \<open>produces\<close> and \<open>raises\<close> for any
  source; \<open>list_iter\<close> discharges them.
\<close>

record 'a list_iter =
  li_seq :: "'a list"
  li_pos :: nat

definition iter_seq :: "'a list \<Rightarrow> 'a list_iter" where
  "iter_seq xs = \<lparr>li_seq = xs, li_pos = 0\<rparr>"

definition list_iter_next :: "('a list_iter, 'a, 'e) next_fn" where
  "list_iter_next it =
     (if li_pos it < length (li_seq it)
      then Yield (li_seq it ! li_pos it) (it\<lparr>li_pos := Suc (li_pos it)\<rparr>)
      else Stop it)"

partial_function (option) drain :: "('s, 'a, 'e) next_fn \<Rightarrow> 's \<Rightarrow> ('e + 'a list) option" where
  "drain nxt s =
     (case nxt s of
        Yield a s' \<Rightarrow> Option.bind (drain nxt s') (\<lambda>r. Some (map_sum id (Cons a) r))
      | Stop s' \<Rightarrow> Some (Inr [])
      | Raise e \<Rightarrow> Some (Inl e))"

inductive produces :: "('s, 'a, 'e) next_fn \<Rightarrow> 's \<Rightarrow> 'a list \<Rightarrow> bool" for nxt where
  produces_stop: "nxt s = Stop s' \<Longrightarrow> nxt s' = Stop s' \<Longrightarrow> produces nxt s []"
| produces_yield: "nxt s = Yield a s' \<Longrightarrow> produces nxt s' ys \<Longrightarrow> produces nxt s (a # ys)"

inductive raises :: "('s, 'a, 'e) next_fn \<Rightarrow> 's \<Rightarrow> 'a list \<Rightarrow> 'e \<Rightarrow> bool" for nxt where
  raises_now: "nxt s = Raise e \<Longrightarrow> raises nxt s [] e"
| raises_yield: "nxt s = Yield a s' \<Longrightarrow> raises nxt s' ys e \<Longrightarrow> raises nxt s (a # ys) e"

inductive reachable :: "('s, 'a, 'e) next_fn \<Rightarrow> 's \<Rightarrow> 's \<Rightarrow> bool" for nxt s0 where
  reach_init: "reachable nxt s0 s0"
| reach_yield: "reachable nxt s0 s \<Longrightarrow> nxt s = Yield a s' \<Longrightarrow> reachable nxt s0 s'"
| reach_stop: "reachable nxt s0 s \<Longrightarrow> nxt s = Stop s' \<Longrightarrow> reachable nxt s0 s'"

record ('a, 'e) gen_iter =
  gi_items :: "'a list"
  gi_exc :: "'e option"

definition gen_next :: "(('a, 'e) gen_iter, 'a, 'e) next_fn" where
  "gen_next g =
     (case gi_items g of
        [] \<Rightarrow> (case gi_exc g of None \<Rightarrow> Stop g | Some e \<Rightarrow> Raise e)
      | a # as \<Rightarrow> Yield a (g\<lparr>gi_items := as\<rparr>))"

record 'a flaky_iter =
  fl_before :: "'a list"
  fl_after :: "'a list"
  fl_stopped :: bool

definition flaky_next :: "('a flaky_iter, 'a, 'e) next_fn" where
  "flaky_next it =
     (case fl_before it of
        a # as \<Rightarrow> Yield a (it\<lparr>fl_before := as\<rparr>)
      | [] \<Rightarrow>
          if \<not> fl_stopped it then Stop (it\<lparr>fl_stopped := True\<rparr>)
          else (case fl_after it of
                  a # as \<Rightarrow> Yield a (it\<lparr>fl_after := as\<rparr>)
                | [] \<Rightarrow> Stop it))"

fun advance :: "('s, 'a, 'e) next_fn \<Rightarrow> nat \<Rightarrow> 's \<Rightarrow> ('a list \<times> 's) option" where
  "advance nxt 0 s = Some ([], s)"
| "advance nxt (Suc k) s =
     (case nxt s of
        Yield a s' \<Rightarrow> map_option (\<lambda>(as, t). (a # as, t)) (advance nxt k s')
      | _ \<Rightarrow> None)"

inductive_cases produces_NilE: "produces nxt s []"

subsection \<open>Draining a source\<close>

lemma drain_produces: "produces nxt s ys \<Longrightarrow> drain nxt s = Some (Inr ys)"
  by (induction rule: produces.induct) (simp_all add: drain.simps)

lemma drain_raises: "raises nxt s ys e \<Longrightarrow> drain nxt s = Some (Inl e)"
  by (induction rule: raises.induct) (simp_all add: drain.simps)

lemma advance_produces:
  "produces nxt s ys \<Longrightarrow> k \<le> length ys \<Longrightarrow>
   \<exists>s'. advance nxt k s = Some (take k ys, s') \<and> produces nxt s' (drop k ys)"
proof (induction k arbitrary: s ys)
  case 0
  then show ?case by simp
next
  case (Suc k)
  from Suc.prems(1) show ?case
  proof cases
    case produces_stop
    with Suc.prems(2) show ?thesis by simp
  next
    case (produces_yield a s' ys')
    with Suc.IH [of s' ys'] Suc.prems(2) show ?thesis by auto
  qed
qed

subsection \<open>The sequence iterator meets the contract\<close>

lemma list_iter_next_Yield [iter_simps]:
  "i < length xs \<Longrightarrow>
   list_iter_next \<lparr>li_seq = xs, li_pos = i\<rparr> = Yield (xs ! i) \<lparr>li_seq = xs, li_pos = Suc i\<rparr>"
  by (simp add: list_iter_next_def)

lemma list_iter_next_Stop [iter_simps]:
  "length xs \<le> i \<Longrightarrow> list_iter_next \<lparr>li_seq = xs, li_pos = i\<rparr> = Stop \<lparr>li_seq = xs, li_pos = i\<rparr>"
  by (simp add: list_iter_next_def)

lemma produces_list_iter:
  "produces list_iter_next \<lparr>li_seq = xs, li_pos = i\<rparr> (drop i xs)"
proof (cases "i \<le> length xs")
  case True
  then show ?thesis
  proof (induction rule: inc_induct)
    case base
    show ?case by (auto intro: produces_stop simp: iter_simps)
  next
    case (step n)
    then show ?case
      by (simp add: Cons_nth_drop_Suc [symmetric] iter_simps produces_yield)
  qed
next
  case False
  then show ?thesis by (auto intro: produces_stop simp: iter_simps)
qed

lemma produces_iter_seq: "produces list_iter_next (iter_seq xs) xs"
  using produces_list_iter [of xs 0] by (simp add: iter_seq_def)

lemma raises_gen_iter: "raises gen_next \<lparr>gi_items = xs, gi_exc = Some e\<rparr> xs e"
  by (induction xs) (auto simp: gen_next_def intro: raises.intros)

lemma produces_gen_iter: "produces gen_next \<lparr>gi_items = xs, gi_exc = None\<rparr> xs"
  by (induction xs) (auto simp: gen_next_def intro: produces.intros)

end
