(* ===== verification/Chunk_Spec.thy ===== *)
theory Chunk_Spec
  imports Prelude
begin

text \<open>
  The abstract specification of the chunking transformers, as the spec states them
  (section 4 and 8): \<open>chunks n xs\<close> cuts \<open>xs\<close> into consecutive pieces of \<open>n\<close>
  elements, the last one possibly shorter; \<open>partition_spec\<close> keeps only the full pieces
  or pads the short last one. The iterators of \<open>Partition_All\<close> and \<open>Partition\<close> are
  proved to produce exactly these lists. The lemmas here are the list facts that say
  what the specification promises: the pieces concatenate back to the input, all but
  the last have length \<open>n\<close>, how many there are, and where each one starts.
\<close>

fun chunks :: "nat \<Rightarrow> 'a list \<Rightarrow> 'a list list" where
  "chunks n [] = []"
| "chunks n (x # xs) = (if n = 0 then [] else take n (x # xs) # chunks n (drop n (x # xs)))"

definition pad_chunk :: "nat \<Rightarrow> 'a \<Rightarrow> 'a list \<Rightarrow> 'a list" where
  "pad_chunk n p c = c @ replicate (n - length c) p"

definition partition_spec :: "nat \<Rightarrow> 'a option \<Rightarrow> 'a list \<Rightarrow> 'a list list" where
  "partition_spec n pad xs =
     (case pad of
        None \<Rightarrow> takeWhile (\<lambda>c. length c = n) (chunks n xs)
      | Some p \<Rightarrow> map (pad_chunk n p) (chunks n xs))"

subsection \<open>Unfolding\<close>

lemma chunks_0 [simp]: "chunks 0 xs = []"
  by (cases xs) simp_all

lemma chunks_step:
  "0 < n \<Longrightarrow> xs \<noteq> [] \<Longrightarrow> chunks n xs = take n xs # chunks n (drop n xs)"
  by (cases xs) simp_all

lemma chunks_eq_Nil_iff [simp]: "chunks n xs = [] \<longleftrightarrow> n = 0 \<or> xs = []"
  by (cases xs) simp_all

lemma chunks_short: "0 < n \<Longrightarrow> xs \<noteq> [] \<Longrightarrow> length xs \<le> n \<Longrightarrow> chunks n xs = [xs]"
  by (simp add: chunks_step)

lemma full_chunks_step:
  assumes "0 < n" "n \<le> length xs"
  shows "take (length xs div n) (chunks n xs) =
    take n xs # take ((length xs - n) div n) (chunks n (drop n xs))"
proof -
  have "length xs div n = Suc ((length xs - n) div n)"
    using assms by (simp add: le_div_geq)
  moreover have "xs \<noteq> []" using assms by auto
  ultimately show ?thesis using assms(1) by (simp add: chunks_step)
qed

lemma partition_spec_Nil [simp]: "partition_spec n pad [] = []"
  by (simp add: partition_spec_def split: option.split)

lemma partition_spec_full_step:
  assumes "0 < n" "n \<le> length xs"
  shows "partition_spec n pad xs = take n xs # partition_spec n pad (drop n xs)"
proof -
  have "xs \<noteq> []" and "length (take n xs) = n" using assms by auto
  then show ?thesis
    using assms(1) by (simp add: partition_spec_def chunks_step pad_chunk_def split: option.split)
qed

lemma partition_spec_short:
  assumes "xs \<noteq> []" "length xs < n"
  shows "partition_spec n None xs = []" and "partition_spec n (Some p) xs = [pad_chunk n p xs]"
  using assms by (simp_all add: partition_spec_def chunks_short)

lemma takeWhile_full_chunks:
  "takeWhile (\<lambda>c. length c = n) (chunks n xs) = take (length xs div n) (chunks n xs)"
proof (induction n xs rule: chunks.induct)
  case (1 n)
  then show ?case by simp
next
  case (2 n x xs)
  show ?case
  proof (cases "n = 0 \<or> length (x # xs) < n")
    case True
    then show ?thesis by (auto simp: chunks_short)
  next
    case False
    then have "takeWhile (\<lambda>c. length c = n) (chunks n (x # xs))
        = take n (x # xs) # takeWhile (\<lambda>c. length c = n) (chunks n (drop n (x # xs)))"
      by (simp add: chunks_step del: chunks.simps)
    with False "2.IH" full_chunks_step [of n "x # xs"] show ?thesis
      by (simp del: chunks.simps)
  qed
qed

subsection \<open>What the pieces are\<close>

lemma concat_chunks: "0 < n \<Longrightarrow> concat (chunks n xs) = xs"
  by (induction n xs rule: chunks.induct) simp_all

lemma chunks_length_le: "c \<in> set (chunks n xs) \<Longrightarrow> length c \<le> n"
  by (induction n xs rule: chunks.induct) (auto split: if_splits)

lemma chunks_butlast_full: "c \<in> set (butlast (chunks n xs)) \<Longrightarrow> length c = n"
proof (induction n xs rule: chunks.induct)
  case (1 n)
  then show ?case by simp
next
  case (2 n x xs)
  show ?case
  proof (cases "n = 0 \<or> length xs < n")
    case True
    with "2.prems" show ?thesis by (auto simp: chunks_short)
  next
    case False
    then have "chunks n (drop n (x # xs)) \<noteq> []" by simp
    with False "2.IH" "2.prems" show ?thesis by (auto split: if_splits)
  qed
qed

lemma length_chunks: "0 < n \<Longrightarrow> length (chunks n xs) = (length xs + n - 1) div n"
proof (induction n xs rule: chunks.induct)
  case (1 n)
  then show ?case by simp
next
  case (2 n x xs)
  show ?case
  proof (cases "length xs < n")
    case True
    with "2.prems" have "(Suc (length xs) + n - 1) div n = 1"
      by (simp add: div_nat_eqI)
    with True "2.prems" show ?thesis by (simp add: chunks_short)
  next
    case False
    have "(Suc (length xs) - n + n - 1) div n + 1 = (Suc (length xs) + n - 1) div n"
      using False "2.prems" by (simp add: div_add_self2)
    with False "2.prems" "2.IH" show ?thesis by simp
  qed
qed

lemma length_chunks_drop: "length (chunks n (drop j xs)) \<le> length (chunks n xs)"
proof (cases "n = 0")
  case False
  then show ?thesis by (simp add: length_chunks div_le_mono)
qed simp

lemma nth_chunks:
  "i < length (chunks n xs) \<Longrightarrow> chunks n xs ! i = take n (drop (i * n) xs)"
proof (induction n xs arbitrary: i rule: chunks.induct)
  case (1 n)
  then show ?case by simp
next
  case (2 n x xs)
  then show ?case
    by (cases i) (auto simp: drop_drop add.commute split: if_splits)
qed

lemma last_chunk_length:
  assumes "0 < n" "xs \<noteq> []"
  shows "0 < length (last (chunks n xs)) \<and> length (last (chunks n xs)) \<le> n
     \<and> (length (last (chunks n xs)) = n \<longleftrightarrow> n dvd length xs)"
  using assms
proof (induction n xs rule: chunks.induct)
  case (1 n)
  then show ?case by simp
next
  case (2 n x xs)
  show ?case
  proof (cases "length xs < n")
    case True
    with "2.prems" show ?thesis
      by (auto simp: chunks_short dest: dvd_imp_le)
  next
    case False
    then have "drop n (x # xs) \<noteq> []" by simp
    moreover have "n dvd Suc (length xs) - n \<longleftrightarrow> n dvd Suc (length xs)"
      using False by (simp add: dvd_minus_self)
    ultimately show ?thesis
      using "2.IH" "2.prems" by simp
  qed
qed

subsection \<open>Full and padded chunks\<close>

lemma concat_take_chunks: "0 < n \<Longrightarrow> concat (take k (chunks n xs)) = take (k * n) xs"
proof (induction n xs arbitrary: k rule: chunks.induct)
  case (1 n)
  then show ?case by simp
next
  case (2 n x xs)
  then show ?case
    by (cases k) (simp_all add: take_add add.commute)
qed

lemma full_chunks_length:
  "c \<in> set (take (length xs div n) (chunks n xs)) \<Longrightarrow> length c = n"
  using set_takeWhileD [of c "\<lambda>c. length c = n" "chunks n xs"]
  by (simp add: takeWhile_full_chunks)

lemma length_full_chunks:
  "0 < n \<Longrightarrow> length (take (length xs div n) (chunks n xs)) = length xs div n"
  by (simp add: length_chunks div_le_mono)

lemma length_pad_chunk: "length c \<le> n \<Longrightarrow> length (pad_chunk n p c) = n"
  by (simp add: pad_chunk_def)

lemma concat_pad_chunks:
  "0 < n \<Longrightarrow> concat (map (pad_chunk n p) (chunks n xs))
     = xs @ replicate ((n - length xs mod n) mod n) p"
proof (induction n xs rule: chunks.induct)
  case (1 n)
  then show ?case by simp
next
  case (2 n x xs)
  show ?case
  proof (cases "length xs < n")
    case True
    then have "(n - Suc (length xs) mod n) mod n = n - Suc (length xs)"
      by (cases "Suc (length xs) = n") simp_all
    with True "2.prems" show ?thesis by (simp add: chunks_short pad_chunk_def)
  next
    case False
    then have "Suc (length xs) mod n = (Suc (length xs) - n) mod n"
      by (simp add: le_mod_geq)
    with False "2.prems" "2.IH" show ?thesis by (simp add: pad_chunk_def)
  qed
qed

lemma chunks_dvd_full: "n dvd length xs \<Longrightarrow> c \<in> set (chunks n xs) \<Longrightarrow> length c = n"
proof (induction n xs rule: chunks.induct)
  case (1 n)
  then show ?case by simp
next
  case (2 n x xs)
  show ?case
  proof (cases "length xs < n")
    case True
    with "2.prems" have "Suc (length xs) = n" by (auto dest: dvd_imp_le)
    with "2.prems" show ?thesis by (simp add: chunks_short)
  next
    case False
    then have "n dvd Suc (length xs) - n" using "2.prems"(1) by (simp add: dvd_minus_self)
    with False "2.IH" "2.prems" show ?thesis by (auto split: if_splits)
  qed
qed

lemma partition_spec_dvd: "n dvd length xs \<Longrightarrow> partition_spec n pad xs = chunks n xs"
  using chunks_dvd_full [of n xs]
  by (auto simp: partition_spec_def pad_chunk_def takeWhile_eq_all_conv intro: map_idI
           split: option.split)

end
