(* ===== verification/Partition_All.thy ===== *)
theory Partition_All
  imports Iterator Chunk_Spec
begin

text \<open>
  \<open>partition_all\<close> (\<open>extras.py\<close>, lines 47--73). Its state is the record
  \<open>partition_all_st\<close>: the chunk size \<open>_n\<close> (a Python int, \<open>pa_n\<close>) and the wrapped
  source \<open>_seq\<close> (\<open>pa_seq\<close>), of any state type \<open>'s\<close> with its \<open>__next__\<close> \<open>nxt\<close>.
  \<open>fill\<close> is the \<open>for\<close> loop with its \<open>try\<close>: at most \<open>n\<close> pulls, stopping at
  \<open>StopIteration\<close>, while any other exception leaves the loop and the method.
  \<open>partition_all_next\<close> is \<open>__next__\<close>. The main lemmas say that over a source that
  \<open>produces ys\<close>, the transformer \<open>produces (chunks n ys)\<close> (a refinement of the
  specification, which with \<open>drain_produces\<close> says that \<open>list(partition_all(n, seq))\<close>
  returns the chunks), what it does over a source that raises, and that a chunk size of
  zero or less yields nothing. \<open>fill_Inr\<close> and \<open>fill_Inl\<close> characterise the loop over
  any source by the calls it made (\<open>advance\<close>), which gives the outcome of one call of
  \<open>__next__\<close> over any source; the reachable states over a well-behaved source are those
  whose source still yields a suffix of the input, from which exhaustion is reached.
\<close>

record 's partition_all_st =
  pa_n :: int
  pa_seq :: 's

definition partition_all_init :: "int \<Rightarrow> 's \<Rightarrow> 's partition_all_st" where
  "partition_all_init n s = \<lparr>pa_n = n, pa_seq = s\<rparr>"

fun fill :: "('s, 'a, 'e) next_fn \<Rightarrow> nat \<Rightarrow> 'a list \<Rightarrow> 's \<Rightarrow> 'e + 'a list \<times> 's" where
  "fill nxt 0 items s = Inr (items, s)"
| "fill nxt (Suc k) items s =
     (case nxt s of
        Yield a s' \<Rightarrow> fill nxt k (items @ [a]) s'
      | Stop s' \<Rightarrow> Inr (items, s')
      | Raise e \<Rightarrow> Inl e)"

definition partition_all_next :: "('s, 'a, 'e) next_fn \<Rightarrow> ('s partition_all_st, 'a list, 'e) next_fn" where
  "partition_all_next nxt st =
     (case fill nxt (nat (pa_n st)) [] (pa_seq st) of
        Inl e \<Rightarrow> Raise e
      | Inr (items, s') \<Rightarrow>
          if length items = 0 then Stop (st\<lparr>pa_seq := s'\<rparr>)
          else Yield items (st\<lparr>pa_seq := s'\<rparr>))"

definition aligned :: "int \<Rightarrow> 'a list \<Rightarrow> 'a list_iter partition_all_st \<Rightarrow> bool" where
  "aligned n xs st \<longleftrightarrow>
     pa_n st = n \<and> li_seq (pa_seq st) = xs \<and> li_pos (pa_seq st) \<le> length xs \<and>
     (nat n dvd li_pos (pa_seq st) \<or> li_pos (pa_seq st) = length xs)"

subsection \<open>The pulling loop\<close>

lemma fill_produces:
  "produces nxt s ys \<Longrightarrow>
   \<exists>s'. fill nxt k acc s = Inr (acc @ take k ys, s') \<and> produces nxt s' (drop k ys)
        \<and> (length ys < k \<longrightarrow> nxt s' = Stop s')"
proof (induction k arbitrary: acc s ys)
  case 0
  then show ?case by simp
next
  case (Suc k)
  from Suc.prems show ?case
  proof cases
    case (produces_stop s')
    then show ?thesis by (auto intro: produces.produces_stop)
  next
    case (produces_yield a s' ys')
    with Suc.IH [of s' ys' "acc @ [a]"] show ?thesis by simp
  qed
qed

lemma fill_raises_short:
  "raises nxt s ys e \<Longrightarrow> length ys < k \<Longrightarrow> fill nxt k acc s = Inl e"
proof (induction k arbitrary: acc s ys)
  case 0
  then show ?case by simp
next
  case (Suc k)
  from Suc.prems(1) show ?case
  proof cases
    case raises_now
    then show ?thesis by simp
  next
    case (raises_yield a s' ys')
    with Suc.IH [of s' ys'] Suc.prems(2) show ?thesis by simp
  qed
qed

lemma fill_raises_long:
  "raises nxt s ys e \<Longrightarrow> k \<le> length ys \<Longrightarrow>
   \<exists>s'. fill nxt k acc s = Inr (acc @ take k ys, s') \<and> raises nxt s' (drop k ys) e"
proof (induction k arbitrary: acc s ys)
  case 0
  then show ?case by simp
next
  case (Suc k)
  from Suc.prems(1) show ?case
  proof cases
    case raises_now
    with Suc.prems(2) show ?thesis by simp
  next
    case (raises_yield a s' ys')
    with Suc.IH [of s' ys' "acc @ [a]"] Suc.prems(2) show ?thesis by simp
  qed
qed

lemma fill_list_iter:
  "i \<le> length xs \<Longrightarrow>
   fill list_iter_next k acc \<lparr>li_seq = xs, li_pos = i\<rparr>
     = Inr (acc @ take k (drop i xs), \<lparr>li_seq = xs, li_pos = min (i + k) (length xs)\<rparr>)"
proof (induction k arbitrary: acc i)
  case 0
  then show ?case by simp
next
  case (Suc k)
  show ?case
  proof (cases "i < length xs")
    case True
    with Suc.IH [of "Suc i" "acc @ [xs ! i]"] show ?thesis
      by (simp add: iter_simps Cons_nth_drop_Suc [symmetric])
  next
    case False
    with Suc.prems show ?thesis by (simp add: iter_simps)
  qed
qed

lemma fill_Inr:
  "fill nxt k acc s = Inr (items, s') \<Longrightarrow>
   \<exists>cs t. items = acc @ cs \<and> length cs \<le> k \<and> advance nxt (length cs) s = Some (cs, t)
          \<and> (if length cs = k then s' = t else nxt t = Stop s')"
proof (induction k arbitrary: acc s)
  case 0
  then show ?case by simp
next
  case (Suc k)
  show ?case
  proof (cases "nxt s")
    case (Yield a s1)
    with Suc.prems have "fill nxt k (acc @ [a]) s1 = Inr (items, s')" by simp
    from Suc.IH [OF this] obtain cs t where
      "items = acc @ [a] @ cs" "length cs \<le> k" "advance nxt (length cs) s1 = Some (cs, t)"
      "if length cs = k then s' = t else nxt t = Stop s'" by auto
    with Yield show ?thesis
      by (intro exI [of _ "a # cs"] exI [of _ t]) simp
  next
    case (Stop s1)
    with Suc.prems show ?thesis by (intro exI [of _ "[]"] exI [of _ s]) simp
  next
    case (Raise e)
    with Suc.prems show ?thesis by simp
  qed
qed

lemma fill_Inl:
  "fill nxt k acc s = Inl e \<Longrightarrow>
   \<exists>cs t. length cs < k \<and> advance nxt (length cs) s = Some (cs, t) \<and> nxt t = Raise e"
proof (induction k arbitrary: acc s)
  case 0
  then show ?case by simp
next
  case (Suc k)
  show ?case
  proof (cases "nxt s")
    case (Yield a s1)
    with Suc.prems Suc.IH [of "acc @ [a]" s1] obtain cs t where
      "length cs < k" "advance nxt (length cs) s1 = Some (cs, t)" "nxt t = Raise e" by auto
    with Yield show ?thesis
      by (intro exI [of _ "a # cs"] exI [of _ t]) simp
  next
    case (Stop s1)
    with Suc.prems show ?thesis by simp
  next
    case (Raise e')
    with Suc.prems show ?thesis by (intro exI [of _ "[]"] exI [of _ s]) simp
  qed
qed

subsection \<open>One call of \<open>__next__\<close>\<close>

lemma partition_all_next_nonpos:
  "pa_n st \<le> 0 \<Longrightarrow> partition_all_next nxt st = Stop st"
  by (simp add: partition_all_next_def)

lemma fill_Stop: "nxt s = Stop s' \<Longrightarrow> 0 < k \<Longrightarrow> fill nxt k acc s = Inr (acc, s')"
  by (cases k) simp_all

lemma partition_all_next_exhausted:
  "nxt s = Stop s' \<Longrightarrow> 0 < n \<Longrightarrow>
   partition_all_next nxt \<lparr>pa_n = n, pa_seq = s\<rparr> = Stop \<lparr>pa_n = n, pa_seq = s'\<rparr>"
  by (simp add: partition_all_next_def fill_Stop)

lemma partition_all_next_chunk:
  assumes "produces nxt s ys" "ys \<noteq> []" "0 < n"
  shows "\<exists>s'. partition_all_next nxt \<lparr>pa_n = n, pa_seq = s\<rparr>
                = Yield (take (nat n) ys) \<lparr>pa_n = n, pa_seq = s'\<rparr>
              \<and> produces nxt s' (drop (nat n) ys)
              \<and> (length ys < nat n \<longrightarrow> nxt s' = Stop s')"
proof -
  obtain s' where fill: "fill nxt (nat n) [] s = Inr (take (nat n) ys, s')"
    and rest: "produces nxt s' (drop (nat n) ys)"
    and short: "length ys < nat n \<longrightarrow> nxt s' = Stop s'"
    using fill_produces [OF assms(1), of "nat n" "[]"] by auto
  show ?thesis
    using fill rest short assms(2,3) by (auto simp: partition_all_next_def)
qed

lemma partition_all_next_raises:
  assumes "raises nxt s ys e" "0 < n"
  shows "(length ys < nat n \<and> partition_all_next nxt \<lparr>pa_n = n, pa_seq = s\<rparr> = Raise e)
       \<or> (nat n \<le> length ys \<and> (\<exists>s'. partition_all_next nxt \<lparr>pa_n = n, pa_seq = s\<rparr>
                = Yield (take (nat n) ys) \<lparr>pa_n = n, pa_seq = s'\<rparr>
              \<and> raises nxt s' (drop (nat n) ys) e))"
proof (cases "length ys < nat n")
  case True
  then show ?thesis
    using fill_raises_short [OF assms(1) True] by (simp add: partition_all_next_def)
next
  case False
  obtain s' where fill: "fill nxt (nat n) [] s = Inr (take (nat n) ys, s')"
    and rest: "raises nxt s' (drop (nat n) ys) e"
    using fill_raises_long [OF assms(1), of "nat n" "[]"] False by auto
  show ?thesis
    using fill rest False assms(2) by (auto simp: partition_all_next_def)
qed

lemma partition_all_next_Yield:
  assumes "partition_all_next nxt st = Yield c st'"
  shows "c \<noteq> [] \<and> pa_n st' = pa_n st \<and>
         (\<exists>t. advance nxt (length c) (pa_seq st) = Some (c, t) \<and> length c \<le> nat (pa_n st)
              \<and> (if length c = nat (pa_n st) then pa_seq st' = t else nxt t = Stop (pa_seq st')))"
proof -
  obtain items s' where fill: "fill nxt (nat (pa_n st)) [] (pa_seq st) = Inr (items, s')"
    and c: "c = items" "items \<noteq> []" and st': "st' = st\<lparr>pa_seq := s'\<rparr>"
    using assms by (auto simp: partition_all_next_def split: sum.splits if_splits)
  from fill_Inr [OF fill] c st' show ?thesis by auto
qed

lemma partition_all_next_Stop:
  assumes "partition_all_next nxt st = Stop st'"
  shows "pa_n st' = pa_n st \<and> (if pa_n st \<le> 0 then st' = st else nxt (pa_seq st) = Stop (pa_seq st'))"
proof -
  obtain s' where fill: "fill nxt (nat (pa_n st)) [] (pa_seq st) = Inr ([], s')"
    and st': "st' = st\<lparr>pa_seq := s'\<rparr>"
    using assms by (auto simp: partition_all_next_def split: sum.splits if_splits)
  from fill_Inr [OF fill] st' show ?thesis by (auto split: if_splits)
qed

lemma partition_all_next_Raise:
  assumes "partition_all_next nxt st = Raise e"
  shows "\<exists>cs t. length cs < nat (pa_n st) \<and> advance nxt (length cs) (pa_seq st) = Some (cs, t)
                \<and> nxt t = Raise e"
proof -
  have "fill nxt (nat (pa_n st)) [] (pa_seq st) = Inl e"
    using assms by (auto simp: partition_all_next_def split: sum.splits if_splits)
  then show ?thesis by (rule fill_Inl)
qed

lemma partition_all_next_list_iter:
  assumes "i \<le> length xs"
  shows "partition_all_next list_iter_next \<lparr>pa_n = n, pa_seq = \<lparr>li_seq = xs, li_pos = i\<rparr>\<rparr> =
    (if 0 < n \<and> i < length xs
     then Yield (take (nat n) (drop i xs))
            \<lparr>pa_n = n, pa_seq = \<lparr>li_seq = xs, li_pos = min (i + nat n) (length xs)\<rparr>\<rparr>
     else Stop \<lparr>pa_n = n, pa_seq = \<lparr>li_seq = xs, li_pos = i\<rparr>\<rparr>)"
  using assms by (auto simp: partition_all_next_def fill_list_iter min_def)

lemma aligned_eq:
  "aligned n xs st \<Longrightarrow> st = \<lparr>pa_n = n, pa_seq = \<lparr>li_seq = xs, li_pos = li_pos (pa_seq st)\<rparr>\<rparr>"
  using partition_all_st.surjective [of st] list_iter.surjective [of "pa_seq st"]
  by (simp add: aligned_def)

lemma aligned_step:
  assumes "aligned n xs st"
  shows "partition_all_next list_iter_next st = Yield c st' \<Longrightarrow> aligned n xs st'"
    and "partition_all_next list_iter_next st = Stop st' \<Longrightarrow> aligned n xs st'"
proof -
  define i where "i = li_pos (pa_seq st)"
  have st: "st = \<lparr>pa_n = n, pa_seq = \<lparr>li_seq = xs, li_pos = i\<rparr>\<rparr>"
    using aligned_eq [OF assms] by (simp add: i_def)
  have i: "i \<le> length xs" "nat n dvd i \<or> i = length xs"
    using assms by (simp_all add: aligned_def i_def)
  have "nat n dvd i + nat n" if "nat n dvd i" using that by simp
  then show "partition_all_next list_iter_next st = Yield c st' \<Longrightarrow> aligned n xs st'"
    using i by (auto simp: st partition_all_next_list_iter aligned_def min_def split: if_splits)
  show "partition_all_next list_iter_next st = Stop st' \<Longrightarrow> aligned n xs st'"
    using i by (auto simp: st partition_all_next_list_iter aligned_def split: if_splits)
qed

lemma reachable_aligned:
  "reachable (partition_all_next list_iter_next) (partition_all_init n (iter_seq xs)) st \<Longrightarrow>
   aligned n xs st"
proof (induction rule: reachable.induct)
  case reach_init
  show ?case by (simp add: aligned_def partition_all_init_def iter_seq_def)
next
  case (reach_yield s a s')
  then show ?case by (blast intro: aligned_step)
next
  case (reach_stop s s')
  then show ?case by (blast intro: aligned_step)
qed

subsection \<open>Every call: the transformer against the specification\<close>

lemma produces_partition_all:
  assumes "produces nxt s ys" "0 < n"
  shows "produces (partition_all_next nxt) \<lparr>pa_n = n, pa_seq = s\<rparr> (chunks (nat n) ys)"
  using assms(1)
proof (induction "length ys" arbitrary: ys s rule: less_induct)
  case less
  show ?case
  proof (cases ys)
    case Nil
    from less.prems Nil obtain s' where "nxt s = Stop s'" "nxt s' = Stop s'"
      by (auto elim: produces_NilE)
    with assms(2) Nil show ?thesis
      by (auto intro: produces_stop simp: partition_all_next_exhausted)
  next
    case (Cons y ys')
    then have "ys \<noteq> []" by simp
    from partition_all_next_chunk [OF less.prems this assms(2)] obtain s' where
      step: "partition_all_next nxt \<lparr>pa_n = n, pa_seq = s\<rparr>
               = Yield (take (nat n) ys) \<lparr>pa_n = n, pa_seq = s'\<rparr>"
      and rest: "produces nxt s' (drop (nat n) ys)" by blast
    have "length (drop (nat n) ys) < length ys"
      using assms(2) Cons by simp
    then have "produces (partition_all_next nxt) \<lparr>pa_n = n, pa_seq = s'\<rparr>
                 (chunks (nat n) (drop (nat n) ys))"
      using less.hyps rest by blast
    with step assms(2) Cons show ?thesis
      by (simp add: produces_yield chunks_step del: chunks.simps)
  qed
qed

lemma raises_partition_all:
  assumes "raises nxt s ys e" "0 < n"
  shows "raises (partition_all_next nxt) \<lparr>pa_n = n, pa_seq = s\<rparr>
           (take (length ys div nat n) (chunks (nat n) ys)) e"
  using assms(1)
proof (induction "length ys" arbitrary: ys s rule: less_induct)
  case less
  from partition_all_next_raises [OF less.prems assms(2)] show ?case
  proof (elim disjE conjE exE)
    assume "length ys < nat n" "partition_all_next nxt \<lparr>pa_n = n, pa_seq = s\<rparr> = Raise e"
    then show ?case by (simp add: raises_now)
  next
    fix s'
    assume long: "nat n \<le> length ys"
      and step: "partition_all_next nxt \<lparr>pa_n = n, pa_seq = s\<rparr>
                   = Yield (take (nat n) ys) \<lparr>pa_n = n, pa_seq = s'\<rparr>"
      and rest: "raises nxt s' (drop (nat n) ys) e"
    have "length (drop (nat n) ys) < length ys"
      using assms(2) long by simp
    then have "raises (partition_all_next nxt) \<lparr>pa_n = n, pa_seq = s'\<rparr>
                 (take ((length ys - nat n) div nat n) (chunks (nat n) (drop (nat n) ys))) e"
      using less.hyps rest by fastforce
    with step long assms(2) show ?case
      by (simp add: raises_yield full_chunks_step)
  qed
qed

lemma drain_partition_all_iter_seq:
  "0 < n \<Longrightarrow>
   drain (partition_all_next list_iter_next) (partition_all_init n (iter_seq xs))
     = Some (Inr (chunks (nat n) xs))"
  unfolding partition_all_init_def
  by (rule drain_produces [OF produces_partition_all [OF produces_iter_seq]])

lemma partition_all_next_cases:
  assumes "produces nxt s ys" "0 < n"
  shows "(ys = [] \<and> (\<exists>s'. partition_all_next nxt \<lparr>pa_n = n, pa_seq = s\<rparr> = Stop \<lparr>pa_n = n, pa_seq = s'\<rparr>
                          \<and> nxt s' = Stop s'))
       \<or> (ys \<noteq> [] \<and> (\<exists>s'. partition_all_next nxt \<lparr>pa_n = n, pa_seq = s\<rparr>
                            = Yield (take (nat n) ys) \<lparr>pa_n = n, pa_seq = s'\<rparr>
                          \<and> produces nxt s' (drop (nat n) ys)))"
proof (cases ys)
  case Nil
  with assms(1) obtain s' where "nxt s = Stop s'" "nxt s' = Stop s'"
    by (auto elim: produces_NilE)
  with Nil assms(2) show ?thesis by (simp add: partition_all_next_exhausted)
next
  case (Cons y ys')
  with partition_all_next_chunk [OF assms(1) _ assms(2)] show ?thesis by blast
qed

lemma reachable_partition_all_suffix:
  assumes "reachable (partition_all_next nxt) \<lparr>pa_n = n, pa_seq = s\<rparr> st"
    and "produces nxt s ys" "0 < n"
  shows "\<exists>s' j. st = \<lparr>pa_n = n, pa_seq = s'\<rparr> \<and> produces nxt s' (drop j ys)"
  using assms(1)
proof (induction rule: reachable.induct)
  case reach_init
  show ?case using assms(2) by (intro exI [of _ s] exI [of _ 0]) simp
next
  case (reach_yield st a st')
  then obtain s' j where "st = \<lparr>pa_n = n, pa_seq = s'\<rparr>" "produces nxt s' (drop j ys)" by blast
  with reach_yield.hyps(2) partition_all_next_cases [of nxt s' "drop j ys" n] assms(3) show ?case
    by (auto simp: add.commute)
next
  case (reach_stop st st')
  then obtain s' j where "st = \<lparr>pa_n = n, pa_seq = s'\<rparr>" "produces nxt s' (drop j ys)" by blast
  with reach_stop.hyps(2) partition_all_next_cases [of nxt s' "drop j ys" n] assms(3) show ?case
    by (fastforce intro: produces_stop exI [of _ "length ys"])
qed

subsection \<open>Properties of \<open>partition_all\<close>\<close>

text \<open>
  C1: \<open>list(partition_all(n, seq))\<close> over a sequence returns, and returns exactly the
  specified chunks: the consecutive pieces of \<open>n\<close> elements of \<open>seq\<close>, the last one
  possibly shorter.
\<close>

theorem partition_all_list:
  "0 < n \<Longrightarrow>
   drain (partition_all_next list_iter_next) (partition_all_init n (iter_seq xs))
     = Some (Inr (chunks (nat n) xs))"
  unfolding partition_all_init_def
  by (rule drain_produces [OF produces_partition_all [OF produces_iter_seq]])

theorem partition_all_list_witness:
  "(0::int) < 2 \<and>
   drain (partition_all_next list_iter_next) (partition_all_init 2 (iter_seq [1::int, 2, 3, 4, 5]))
     = (Some (Inr [[1, 2], [3, 4], [5]]) :: (unit + int list list) option)"
  using partition_all_list [of 2 "[1::int, 2, 3, 4, 5]"] by simp

text \<open>
  C4: for a positive chunk size, concatenating the chunks that \<open>partition_all\<close> returns
  gives back the input sequence.
\<close>

theorem partition_all_concat:
  "0 < n \<Longrightarrow>
   \<exists>cs. drain (partition_all_next list_iter_next) (partition_all_init n (iter_seq xs)) = Some (Inr cs)
        \<and> concat cs = xs"
  by (simp add: drain_partition_all_iter_seq concat_chunks)

theorem partition_all_concat_witness:
  "(0::int) < 3 \<and>
   (\<exists>cs. drain (partition_all_next list_iter_next) (partition_all_init 3 (iter_seq ''abcdefg''))
          = (Some (Inr cs) :: (unit + char list list) option)
        \<and> concat cs = ''abcdefg'')"
  using partition_all_concat [of 3 "''abcdefg''"] by simp

text \<open>
  C5: every chunk but the last has exactly \<open>n\<close> elements; the last has between 1 and
  \<open>n\<close>, and exactly \<open>n\<close> iff \<open>n\<close> divides the length of the input; an empty input
  gives no chunk.
\<close>

theorem partition_all_chunk_lengths:
  "0 < n \<Longrightarrow>
   \<exists>cs. drain (partition_all_next list_iter_next) (partition_all_init n (iter_seq xs)) = Some (Inr cs)
        \<and> (\<forall>c \<in> set (butlast cs). length c = nat n)
        \<and> (xs = [] \<longrightarrow> cs = [])
        \<and> (xs \<noteq> [] \<longrightarrow> 0 < length (last cs) \<and> length (last cs) \<le> nat n
                     \<and> (length (last cs) = nat n \<longleftrightarrow> nat n dvd length xs))"
  using last_chunk_length [of "nat n" xs]
  by (auto simp: drain_partition_all_iter_seq chunks_butlast_full)

theorem partition_all_chunk_lengths_witness:
  "(0::int) < 2 \<and>
   (\<exists>cs. drain (partition_all_next list_iter_next) (partition_all_init 2 (iter_seq [1::int, 2, 3, 4, 5]))
          = (Some (Inr cs) :: (unit + int list list) option)
        \<and> (\<forall>c \<in> set (butlast cs). length c = 2)
        \<and> ([1::int, 2, 3, 4, 5] = [] \<longrightarrow> cs = [])
        \<and> ([1::int, 2, 3, 4, 5] \<noteq> [] \<longrightarrow> 0 < length (last cs) \<and> length (last cs) \<le> 2
             \<and> (length (last cs) = 2 \<longleftrightarrow> 2 dvd length [1::int, 2, 3, 4, 5])))"
  using partition_all_chunk_lengths [of 2 "[1::int, 2, 3, 4, 5]"] by simp

text \<open>
  C6: \<open>partition_all(n, seq)\<close> returns \<open>ceil(len(seq) / n)\<close> chunks.
\<close>

theorem partition_all_count:
  "0 < n \<Longrightarrow>
   \<exists>cs. drain (partition_all_next list_iter_next) (partition_all_init n (iter_seq xs)) = Some (Inr cs)
        \<and> length cs = (length xs + nat n - 1) div nat n"
  by (simp add: drain_partition_all_iter_seq length_chunks)

theorem partition_all_count_witness:
  "(0::int) < 4 \<and>
   (\<exists>cs. drain (partition_all_next list_iter_next) (partition_all_init 4 (iter_seq [1::int, 2, 3, 4, 5, 6, 7, 8, 9]))
          = (Some (Inr cs) :: (unit + int list list) option)
        \<and> length cs = 3)"
  using partition_all_count [of 4 "[1::int, 2, 3, 4, 5, 6, 7, 8, 9]"] by simp

text \<open>
  C10: over any source that meets the iterator contract (it yields \<open>ys\<close> and then keeps
  signalling exhaustion), \<open>partition_all\<close> meets the same contract with the chunks of
  \<open>ys\<close> as its elements: the transformer refines the chunk specification step by step.
\<close>

theorem partition_all_refines:
  "produces nxt s ys \<Longrightarrow> 0 < n \<Longrightarrow>
   produces (partition_all_next nxt) (partition_all_init n s) (chunks (nat n) ys)"
  unfolding partition_all_init_def by (rule produces_partition_all)

theorem partition_all_refines_witness:
  "produces gen_next \<lparr>gi_items = [1::int, 2, 3], gi_exc = (None :: unit option)\<rparr> [1, 2, 3] \<and> (0::int) < 2 \<and>
   produces (partition_all_next gen_next)
     (partition_all_init 2 \<lparr>gi_items = [1::int, 2, 3], gi_exc = (None :: unit option)\<rparr>) [[1, 2], [3]]"
proof -
  have src: "produces gen_next \<lparr>gi_items = [1::int, 2, 3], gi_exc = (None :: unit option)\<rparr> [1, 2, 3]"
    by (rule produces_gen_iter)
  show ?thesis using partition_all_refines [OF src, of 2] src by simp
qed

text \<open>
  C12: a chunk size of zero or less is not rejected: \<open>xrange(n)\<close> is empty, so every call
  signals exhaustion at once and \<open>list(partition_all(n, seq))\<close> is empty, whatever the
  source holds, even a source that would raise.
\<close>

theorem partition_all_nonpos:
  "n \<le> 0 \<Longrightarrow> drain (partition_all_next nxt) (partition_all_init n s) = Some (Inr [])"
  by (simp add: drain.simps partition_all_next_nonpos partition_all_init_def)

theorem partition_all_nonpos_witness:
  "(0::int) \<le> 0 \<and>
   drain (partition_all_next gen_next) (partition_all_init 0 \<lparr>gi_items = [1::int, 2, 3], gi_exc = Some ()\<rparr>)
     = Some (Inr [])"
  using partition_all_nonpos [of 0 gen_next "\<lparr>gi_items = [1::int, 2, 3], gi_exc = Some ()\<rparr>"] by simp

text \<open>
  C14: an exception raised by the source while a chunk is being filled propagates out of
  \<open>partition_all\<close> unchanged. The chunks returned before it are the complete chunks
  that precede the fault; the elements of the incomplete chunk are lost.
\<close>

theorem partition_all_fault:
  assumes "raises nxt s ys e" "0 < n"
  shows "raises (partition_all_next nxt) (partition_all_init n s)
           (take (length ys div nat n) (chunks (nat n) ys)) e
         \<and> drain (partition_all_next nxt) (partition_all_init n s) = Some (Inl e)"
proof -
  have "raises (partition_all_next nxt) (partition_all_init n s)
          (take (length ys div nat n) (chunks (nat n) ys)) e"
    unfolding partition_all_init_def using assms by (rule raises_partition_all)
  then show ?thesis by (simp add: drain_raises)
qed

theorem partition_all_fault_witness:
  "raises gen_next \<lparr>gi_items = [1::int, 2, 3], gi_exc = Some ''boom''\<rparr> [1, 2, 3] ''boom'' \<and> (0::int) < 2 \<and>
   raises (partition_all_next gen_next)
     (partition_all_init 2 \<lparr>gi_items = [1::int, 2, 3], gi_exc = Some ''boom''\<rparr>) [[1, 2]] ''boom''
   \<and> drain (partition_all_next gen_next)
       (partition_all_init 2 \<lparr>gi_items = [1::int, 2, 3], gi_exc = Some ''boom''\<rparr>) = Some (Inl ''boom'')"
proof -
  have src: "raises gen_next \<lparr>gi_items = [1::int, 2, 3], gi_exc = Some ''boom''\<rparr> [1, 2, 3] ''boom''"
    by (rule raises_gen_iter)
  show ?thesis using partition_all_fault [OF src, of 2] src by simp
qed

text \<open>
  C16: chunk boundaries stay aligned. In every state \<open>partition_all\<close> reaches over a
  sequence, each chunk it returns is the slice \<open>seq[k*n : k*n + n]\<close> for some \<open>k\<close>:
  a request never starts in the middle of a chunk.
\<close>

theorem partition_all_aligned:
  assumes "reachable (partition_all_next list_iter_next) (partition_all_init n (iter_seq xs)) st"
    and "partition_all_next list_iter_next st = Yield c st'"
  shows "\<exists>k. c = take (nat n) (drop (k * nat n) xs)"
proof -
  have al: "aligned n xs st" using assms(1) by (rule reachable_aligned)
  define i where "i = li_pos (pa_seq st)"
  have st: "st = \<lparr>pa_n = n, pa_seq = \<lparr>li_seq = xs, li_pos = i\<rparr>\<rparr>"
    using aligned_eq [OF al] by (simp add: i_def)
  have i: "i \<le> length xs" "nat n dvd i \<or> i = length xs"
    using al by (simp_all add: aligned_def i_def)
  with assms(2) have "i < length xs" and c: "c = take (nat n) (drop i xs)"
    by (auto simp: st partition_all_next_list_iter split: if_splits)
  with i have "nat n dvd i" by auto
  then obtain k where "i = nat n * k" by (rule dvdE)
  with c show ?thesis by (metis mult.commute)
qed

theorem partition_all_aligned_witness:
  "reachable (partition_all_next (list_iter_next :: (int list_iter, int, unit) next_fn)) (partition_all_init 2 (iter_seq [1::int, 2, 3]))
     \<lparr>pa_n = 2, pa_seq = \<lparr>li_seq = [1::int, 2, 3], li_pos = 2\<rparr>\<rparr>
   \<and> (partition_all_next list_iter_next \<lparr>pa_n = 2, pa_seq = \<lparr>li_seq = [1::int, 2, 3], li_pos = 2\<rparr>\<rparr>
        :: (_, _, unit) pull)
       = Yield [3] \<lparr>pa_n = 2, pa_seq = \<lparr>li_seq = [1::int, 2, 3], li_pos = 3\<rparr>\<rparr>
   \<and> (\<exists>k. [3::int] = take 2 (drop (k * 2) [1, 2, 3]))"
proof -
  have step0: "(partition_all_next list_iter_next (partition_all_init 2 (iter_seq [1::int, 2, 3]))
                 :: (_, _, unit) pull)
      = Yield [1, 2] \<lparr>pa_n = 2, pa_seq = \<lparr>li_seq = [1::int, 2, 3], li_pos = 2\<rparr>\<rparr>"
    by (simp add: partition_all_init_def iter_seq_def partition_all_next_list_iter)
  have reach: "reachable (partition_all_next (list_iter_next :: (int list_iter, int, unit) next_fn)) (partition_all_init 2 (iter_seq [1::int, 2, 3]))
     \<lparr>pa_n = 2, pa_seq = \<lparr>li_seq = [1::int, 2, 3], li_pos = 2\<rparr>\<rparr>"
    using reach_init step0 by (rule reach_yield)
  have step1: "(partition_all_next list_iter_next \<lparr>pa_n = 2, pa_seq = \<lparr>li_seq = [1::int, 2, 3], li_pos = 2\<rparr>\<rparr>
        :: (_, _, unit) pull)
       = Yield [3] \<lparr>pa_n = 2, pa_seq = \<lparr>li_seq = [1::int, 2, 3], li_pos = 3\<rparr>\<rparr>"
    by (simp add: partition_all_next_list_iter)
  show ?thesis using partition_all_aligned [OF reach step1] reach step1 by simp
qed

text \<open>
  C18: exhaustion of \<open>partition_all\<close> is final. Over a source that meets the iterator
  contract, once a reachable state signals \<open>StopIteration\<close>, the state it leaves
  signals \<open>StopIteration\<close> again and does not change.
\<close>

theorem partition_all_exhausted_terminal:
  assumes "produces nxt s ys" "0 < n"
    and "reachable (partition_all_next nxt) (partition_all_init n s) st"
    and "partition_all_next nxt st = Stop st'"
  shows "partition_all_next nxt st' = Stop st'"
proof -
  have "\<exists>s' j. st = \<lparr>pa_n = n, pa_seq = s'\<rparr> \<and> produces nxt s' (drop j ys)"
    using assms(3,1,2) unfolding partition_all_init_def by (rule reachable_partition_all_suffix)
  then obtain s' j where st: "st = \<lparr>pa_n = n, pa_seq = s'\<rparr>" and p: "produces nxt s' (drop j ys)"
    by blast
  from partition_all_next_cases [OF p assms(2)] assms(4) st obtain s'' where
    "st' = \<lparr>pa_n = n, pa_seq = s''\<rparr>" "nxt s'' = Stop s''" by auto
  with assms(2) show ?thesis by (simp add: partition_all_next_exhausted)
qed

theorem partition_all_exhausted_terminal_witness:
  "produces list_iter_next (iter_seq [1::int, 2]) [1, 2] \<and> (0::int) < 2
   \<and> reachable (partition_all_next (list_iter_next :: (int list_iter, int, unit) next_fn)) (partition_all_init 2 (iter_seq [1::int, 2]))
        \<lparr>pa_n = 2, pa_seq = \<lparr>li_seq = [1::int, 2], li_pos = 2\<rparr>\<rparr>
   \<and> (partition_all_next list_iter_next \<lparr>pa_n = 2, pa_seq = \<lparr>li_seq = [1::int, 2], li_pos = 2\<rparr>\<rparr>
        :: (_, _, unit) pull)
       = Stop \<lparr>pa_n = 2, pa_seq = \<lparr>li_seq = [1::int, 2], li_pos = 2\<rparr>\<rparr>
   \<and> (partition_all_next list_iter_next \<lparr>pa_n = 2, pa_seq = \<lparr>li_seq = [1::int, 2], li_pos = 2\<rparr>\<rparr>
        :: (_, _, unit) pull)
       = Stop \<lparr>pa_n = 2, pa_seq = \<lparr>li_seq = [1::int, 2], li_pos = 2\<rparr>\<rparr>"
proof -
  have src: "produces list_iter_next (iter_seq [1::int, 2]) [1, 2]"
    by (rule produces_iter_seq)
  have step0: "(partition_all_next list_iter_next (partition_all_init 2 (iter_seq [1::int, 2]))
                 :: (_, _, unit) pull)
      = Yield [1, 2] \<lparr>pa_n = 2, pa_seq = \<lparr>li_seq = [1::int, 2], li_pos = 2\<rparr>\<rparr>"
    by (simp add: partition_all_init_def iter_seq_def partition_all_next_list_iter)
  have reach: "reachable (partition_all_next (list_iter_next :: (int list_iter, int, unit) next_fn)) (partition_all_init 2 (iter_seq [1::int, 2]))
     \<lparr>pa_n = 2, pa_seq = \<lparr>li_seq = [1::int, 2], li_pos = 2\<rparr>\<rparr>"
    using reach_init step0 by (rule reach_yield)
  have stop: "(partition_all_next list_iter_next \<lparr>pa_n = 2, pa_seq = \<lparr>li_seq = [1::int, 2], li_pos = 2\<rparr>\<rparr>
        :: (_, _, unit) pull)
       = Stop \<lparr>pa_n = 2, pa_seq = \<lparr>li_seq = [1::int, 2], li_pos = 2\<rparr>\<rparr>"
    by (simp add: partition_all_next_list_iter)
  show ?thesis
    using partition_all_exhausted_terminal [OF src _ reach stop] src reach stop by simp
qed

text \<open>
  C20: one call of \<open>partition_all.__next__\<close>, over any source, on each of its three
  outcomes. A returned chunk is non-empty, has at most \<open>n\<close> elements and is exactly
  what that many calls of the source's \<open>__next__\<close> return; a chunk shorter than \<open>n\<close>
  ended at \<open>StopIteration\<close>. \<open>StopIteration\<close> leaves a state with a chunk size of zero
  or less unchanged, and otherwise means that the source stopped at once. An exception means
  that the source raised it after fewer than \<open>n\<close> values, which are lost. \<open>_n\<close> never
  changes.
\<close>

theorem partition_all_next_behaviour:
  "case partition_all_next nxt st of
     Yield c st' \<Rightarrow>
       c \<noteq> [] \<and> pa_n st' = pa_n st \<and>
       (\<exists>t. advance nxt (length c) (pa_seq st) = Some (c, t) \<and> length c \<le> nat (pa_n st)
            \<and> (if length c = nat (pa_n st) then pa_seq st' = t else nxt t = Stop (pa_seq st')))
   | Stop st' \<Rightarrow>
       pa_n st' = pa_n st \<and> (if pa_n st \<le> 0 then st' = st else nxt (pa_seq st) = Stop (pa_seq st'))
   | Raise e \<Rightarrow>
       (\<exists>cs t. length cs < nat (pa_n st) \<and> advance nxt (length cs) (pa_seq st) = Some (cs, t)
               \<and> nxt t = Raise e)"
proof (cases "partition_all_next nxt st")
  case (Yield c st')
  with partition_all_next_Yield [OF Yield] show ?thesis by simp
next
  case (Stop st')
  with partition_all_next_Stop [OF Stop] show ?thesis by simp
next
  case (Raise e)
  with partition_all_next_Raise [OF Raise] show ?thesis by simp
qed

text \<open>
  C23: \<open>partition_all\<close> eventually signals exhaustion. Over a source that yields
  \<open>ys\<close> and then stops, from every state the iterator reaches, at most
  \<open>ceil(len(ys) / n)\<close> more calls lead to a state whose next call raises
  \<open>StopIteration\<close>.
\<close>

theorem partition_all_eventually_exhausted:
  assumes "produces nxt s ys" "0 < n"
    and "reachable (partition_all_next nxt) (partition_all_init n s) st"
  shows "\<exists>k cs st' st''. k \<le> length (chunks (nat n) ys)
           \<and> advance (partition_all_next nxt) k st = Some (cs, st')
           \<and> partition_all_next nxt st' = Stop st''"
proof -
  obtain s' j where st: "st = \<lparr>pa_n = n, pa_seq = s'\<rparr>" and p: "produces nxt s' (drop j ys)"
    using reachable_partition_all_suffix [OF assms(3) [unfolded partition_all_init_def] assms(1,2)]
    by blast
  let ?cs = "chunks (nat n) (drop j ys)"
  have "produces (partition_all_next nxt) st ?cs"
    unfolding st using p assms(2) by (rule produces_partition_all)
  from advance_produces [OF this, of "length ?cs"] obtain st' where
    adv: "advance (partition_all_next nxt) (length ?cs) st = Some (?cs, st')"
    and rest: "produces (partition_all_next nxt) st' []" by auto
  from rest obtain st'' where "partition_all_next nxt st' = Stop st''"
    by (auto elim: produces_NilE)
  with adv show ?thesis
    using length_chunks_drop [of "nat n" j ys] by blast
qed

theorem partition_all_eventually_exhausted_witness:
  "produces gen_next \<lparr>gi_items = [1::int, 2, 3], gi_exc = (None :: unit option)\<rparr> [1, 2, 3] \<and> (0::int) < 2
   \<and> reachable (partition_all_next gen_next) (partition_all_init 2 \<lparr>gi_items = [1::int, 2, 3], gi_exc = (None :: unit option)\<rparr>)
        (partition_all_init 2 \<lparr>gi_items = [1::int, 2, 3], gi_exc = (None :: unit option)\<rparr>)
   \<and> (\<exists>k cs st' st''. k \<le> length (chunks (nat 2) [1::int, 2, 3])
        \<and> advance (partition_all_next gen_next) k
              (partition_all_init 2 \<lparr>gi_items = [1::int, 2, 3], gi_exc = (None :: unit option)\<rparr>) = Some (cs, st')
        \<and> partition_all_next gen_next st' = Stop st'')"
proof -
  have src: "produces gen_next \<lparr>gi_items = [1::int, 2, 3], gi_exc = (None :: unit option)\<rparr> [1, 2, 3]"
    by (rule produces_gen_iter)
  have reach: "reachable (partition_all_next gen_next)
      (partition_all_init 2 \<lparr>gi_items = [1::int, 2, 3], gi_exc = (None :: unit option)\<rparr>)
      (partition_all_init 2 \<lparr>gi_items = [1::int, 2, 3], gi_exc = (None :: unit option)\<rparr>)"
    by (rule reach_init)
  have n: "(0::int) < 2" by simp
  show ?thesis using partition_all_eventually_exhausted [OF src n reach] src n reach by blast
qed

end
