(* ===== verification/Shared_Source.thy ===== *)
theory Shared_Source
  imports Partition_All
begin

text \<open>
  A source shared between \<open>partition_all\<close> and another consumer. \<open>_iter\<close> hands an
  iterator through unchanged, so after \<open>it = iter(seq); p = partition_all(n, it)\<close> the
  field \<open>p._seq\<close> and the caller's \<open>it\<close> are the same object: a call \<open>next(it)\<close>
  advances the source that \<open>p\<close> pulls from. The spec (section 3) asks that the transformer
  own its source exclusively, since sharing desynchronises the chunk boundaries.
  \<open>client_op\<close> names the two calls a program can interleave, \<open>next(p)\<close> and
  \<open>next(it)\<close>, and \<open>run_clients\<close> runs a sequence of them on the one shared state,
  collecting what each call returned (the empty list for \<open>StopIteration\<close>) and stopping
  at the first other exception. The lemmas show that no element is lost or duplicated
  under any interleaving.
\<close>

datatype client_op = NextChunk | NextSource

definition client_step ::
  "('s, 'a, 'e) next_fn \<Rightarrow> client_op \<Rightarrow> 's partition_all_st \<Rightarrow> 'e + 'a list \<times> 's partition_all_st"
where
  "client_step nxt op st =
     (case op of
        NextChunk \<Rightarrow>
          (case partition_all_next nxt st of
             Yield c st' \<Rightarrow> Inr (c, st') | Stop st' \<Rightarrow> Inr ([], st') | Raise e \<Rightarrow> Inl e)
      | NextSource \<Rightarrow>
          (case nxt (pa_seq st) of
             Yield a s' \<Rightarrow> Inr ([a], st\<lparr>pa_seq := s'\<rparr>)
           | Stop s' \<Rightarrow> Inr ([], st\<lparr>pa_seq := s'\<rparr>)
           | Raise e \<Rightarrow> Inl e))"

fun run_clients ::
  "('s, 'a, 'e) next_fn \<Rightarrow> client_op list \<Rightarrow> 's partition_all_st \<Rightarrow> 'e + 'a list list \<times> 's partition_all_st"
where
  "run_clients nxt [] st = Inr ([], st)"
| "run_clients nxt (op # ops) st =
     (case client_step nxt op st of
        Inl e \<Rightarrow> Inl e
      | Inr (out, st') \<Rightarrow> map_sum id (\<lambda>(outs, st''). (out # outs, st'')) (run_clients nxt ops st'))"

lemma client_step_produces:
  assumes "produces nxt (pa_seq st) ys"
  shows "\<exists>out st' k. client_step nxt op st = Inr (out, st') \<and> out = take k ys
           \<and> pa_n st' = pa_n st \<and> produces nxt (pa_seq st') (drop k ys)"
proof (cases op)
  case NextChunk
  have st: "st = \<lparr>pa_n = pa_n st, pa_seq = pa_seq st\<rparr>" by simp
  show ?thesis
  proof (cases "0 < pa_n st")
    case True
    from partition_all_next_cases [OF assms True] st NextChunk show ?thesis
      by (auto simp: client_step_def intro!: exI [of _ 0] exI [of _ "nat (pa_n st)"]
               intro: produces_stop)
  next
    case False
    with assms NextChunk show ?thesis
      by (intro exI [of _ "[]"] exI [of _ st] exI [of _ 0])
         (simp add: client_step_def partition_all_next_nonpos)
  qed
next
  case NextSource
  from assms show ?thesis
  proof cases
    case (produces_stop s')
    with NextSource show ?thesis
      by (intro exI [of _ "[]"] exI [of _ "st\<lparr>pa_seq := s'\<rparr>"] exI [of _ 0])
         (simp add: client_step_def produces.produces_stop)
  next
    case (produces_yield a s' ys')
    with NextSource show ?thesis
      by (intro exI [of _ "[a]"] exI [of _ "st\<lparr>pa_seq := s'\<rparr>"] exI [of _ 1])
         (simp add: client_step_def)
  qed
qed

lemma run_clients_produces:
  "produces nxt (pa_seq st) ys \<Longrightarrow>
   \<exists>outs st' k. run_clients nxt ops st = Inr (outs, st') \<and> concat outs = take k ys
     \<and> pa_n st' = pa_n st \<and> produces nxt (pa_seq st') (drop k ys)"
proof (induction ops arbitrary: st ys)
  case Nil
  then show ?case by (intro exI [of _ "[]"] exI [of _ st] exI [of _ 0]) simp
next
  case (Cons op ops)
  from client_step_produces [OF Cons.prems, of op] obtain out st1 k1 where
    step: "client_step nxt op st = Inr (out, st1)" "out = take k1 ys" "pa_n st1 = pa_n st"
    and p1: "produces nxt (pa_seq st1) (drop k1 ys)" by blast
  from Cons.IH [OF p1] obtain outs st' k2 where
    run: "run_clients nxt ops st1 = Inr (outs, st')" "concat outs = take k2 (drop k1 ys)"
         "pa_n st' = pa_n st1" and p2: "produces nxt (pa_seq st') (drop k2 (drop k1 ys))" by blast
  have "take k1 ys @ take k2 (drop k1 ys) = take (k1 + k2) ys"
  proof (cases "k1 \<le> length ys")
    case True then show ?thesis by (simp add: take_add)
  next
    case False then show ?thesis by simp
  qed
  with step run p2 show ?case
    by (intro exI [of _ "out # outs"] exI [of _ st'] exI [of _ "k1 + k2"]) (simp add: add.commute)
qed

subsection \<open>Properties of a shared source\<close>

text \<open>
  C25: sharing the source loses and duplicates nothing. Over a source that yields
  \<open>ys\<close> and then stops, any interleaving of \<open>next(p)\<close> and \<open>next(it)\<close> runs to the
  end, the values all the calls returned, taken in call order, are a prefix of \<open>ys\<close>, the
  source still yields the rest, and \<open>p._n\<close> is unchanged.
\<close>

theorem shared_source_conserves:
  assumes "produces nxt s ys"
  shows "\<exists>outs st' k. run_clients nxt ops (partition_all_init n s) = Inr (outs, st')
           \<and> concat outs = take k ys \<and> pa_n st' = n \<and> produces nxt (pa_seq st') (drop k ys)"
  using run_clients_produces [of nxt "partition_all_init n s" ys ops] assms
  by (simp add: partition_all_init_def)

theorem shared_source_conserves_witness:
  "produces (list_iter_next :: (int list_iter, int, unit) next_fn) (iter_seq [1, 2, 3]) [1, 2, 3] \<and>
   (\<exists>outs st' k. run_clients (list_iter_next :: (int list_iter, int, unit) next_fn) [NextSource, NextChunk]
        (partition_all_init 2 (iter_seq [1, 2, 3])) = Inr (outs, st')
      \<and> concat outs = take k [1, 2, 3] \<and> pa_n st' = 2
      \<and> produces (list_iter_next :: (int list_iter, int, unit) next_fn) (pa_seq st') (drop k [1, 2, 3]))"
proof -
  have src: "produces (list_iter_next :: (int list_iter, int, unit) next_fn) (iter_seq [1, 2, 3]) [1, 2, 3]"
    by (rule produces_iter_seq)
  show ?thesis using shared_source_conserves [OF src, of "[NextSource, NextChunk]" 2] src by blast
qed

end
