(* ===== verification/Partition.thy ===== *)
theory Partition
  imports Partition_All
begin

text \<open>
  \<open>partition\<close> (\<open>extras.py\<close>, lines 11--44). Its state is the record
  \<open>partition_st\<close>: the chunk size \<open>_n\<close> (\<open>p_n\<close>), the inner \<open>partition_all(n, seq)\<close>
  it delegates to (\<open>p_partition_all\<close>) and the pad value \<open>_pad\<close> (\<open>p_pad\<close>). The pad
  is a Python value, and the code decides whether padding was requested by comparing it
  with the class attribute \<open>_NO_PAD = '__no_pad__'\<close> (\<open>NO_PAD\<close>), so the elements
  are \<open>pyobj\<close> values. \<open>partition_next\<close> is \<open>__next__\<close>: a full chunk passes, a short
  one is padded or, without a pad, turned into \<open>StopIteration\<close>. The lemmas show that
  over a source that \<open>produces ys\<close> the transformer produces the full chunks of \<open>ys\<close>
  (without pad) or all chunks padded to \<open>n\<close> (with a pad), that exhaustion is final,
  and that a pad equal to the sentinel string is taken for "no pad". \<open>partition_wf\<close>
  is the well-formedness of the state, that \<open>_n\<close> and the inner \<open>_n\<close> agree: every
  reachable state has it, over any source, and from such a state every returned chunk has
  exactly \<open>n\<close> elements. The inner \<open>partition_all\<close> of a reachable state is itself
  reachable (\<open>reachable_partition_inner\<close>), so its invariants carry over, among them the
  alignment of chunk boundaries over a sequence.
\<close>

record ('s, 'a) partition_st =
  p_n :: int
  p_partition_all :: "'s partition_all_st"
  p_pad :: "'a pyobj"

definition NO_PAD :: "'a pyobj" where
  "NO_PAD = PyStr ''__no_pad__''"

definition partition_init :: "int \<Rightarrow> 's \<Rightarrow> 'a pyobj \<Rightarrow> ('s, 'a) partition_st" where
  "partition_init n s pad = \<lparr>p_n = n, p_partition_all = partition_all_init n s, p_pad = pad\<rparr>"

definition partition_next ::
  "('s, 'a pyobj, 'e) next_fn \<Rightarrow> (('s, 'a) partition_st, 'a pyobj list, 'e) next_fn" where
  "partition_next nxt st =
     (case partition_all_next nxt (p_partition_all st) of
        Raise e \<Rightarrow> Raise e
      | Stop pa' \<Rightarrow> Stop (st\<lparr>p_partition_all := pa'\<rparr>)
      | Yield items pa' \<Rightarrow>
          (let st' = st\<lparr>p_partition_all := pa'\<rparr> in
           if int (length items) < p_n st then
             (if p_pad st \<noteq> NO_PAD
              then Yield (items @ replicate (nat (p_n st - int (length items))) (p_pad st)) st'
              else Stop st')
           else Yield items st'))"

abbreviation pad_option :: "'a pyobj \<Rightarrow> 'a pyobj option" where
  "pad_option pad \<equiv> (if pad = NO_PAD then None else Some pad)"

definition partition_wf :: "('s, 'a) partition_st \<Rightarrow> bool" where
  "partition_wf st \<longleftrightarrow> p_n st = pa_n (p_partition_all st)"

subsection \<open>One call of \<open>__next__\<close>\<close>

lemma partition_init_update [simp]:
  "(partition_init n s pad)\<lparr>p_partition_all := \<lparr>pa_n = n, pa_seq = s'\<rparr>\<rparr> = partition_init n s' pad"
  by (simp add: partition_init_def partition_all_init_def)

lemma p_partition_all_init [simp]:
  "p_partition_all (partition_init n s pad) = \<lparr>pa_n = n, pa_seq = s\<rparr>"
  "p_n (partition_init n s pad) = n"
  "p_pad (partition_init n s pad) = pad"
  by (simp_all add: partition_init_def partition_all_init_def)

lemma partition_next_exhausted:
  "nxt s = Stop s' \<Longrightarrow> 0 < n \<Longrightarrow>
   partition_next nxt (partition_init n s pad) = Stop (partition_init n s' pad)"
  by (simp add: partition_next_def partition_all_next_exhausted)

lemma partition_next_full:
  assumes "produces nxt s ys" "nat n \<le> length ys" "0 < n"
  shows "\<exists>s'. partition_next nxt (partition_init n s pad)
                = Yield (take (nat n) ys) (partition_init n s' pad)
              \<and> produces nxt s' (drop (nat n) ys)"
proof -
  have "ys \<noteq> []" using assms(2,3) by auto
  from partition_all_next_chunk [OF assms(1) this assms(3)] obtain s' where
    step: "partition_all_next nxt \<lparr>pa_n = n, pa_seq = s\<rparr>
             = Yield (take (nat n) ys) \<lparr>pa_n = n, pa_seq = s'\<rparr>"
    and rest: "produces nxt s' (drop (nat n) ys)" by blast
  show ?thesis
    using step rest assms(2,3) by (auto simp: partition_next_def Let_def)
qed

lemma partition_next_short:
  assumes "produces nxt s ys" "ys \<noteq> []" "length ys < nat n"
  shows "\<exists>s'. nxt s' = Stop s' \<and>
           partition_next nxt (partition_init n s pad)
             = (if pad \<noteq> NO_PAD then Yield (pad_chunk (nat n) pad ys) (partition_init n s' pad)
                else Stop (partition_init n s' pad))"
proof -
  have n: "0 < n" using assms(3) by simp
  from partition_all_next_chunk [OF assms(1,2) n] obtain s' where
    step: "partition_all_next nxt \<lparr>pa_n = n, pa_seq = s\<rparr>
             = Yield (take (nat n) ys) \<lparr>pa_n = n, pa_seq = s'\<rparr>"
    and stop: "nxt s' = Stop s'"
    using assms(3) by blast
  have "int (length ys) < n" using assms(3) by simp
  then show ?thesis
    using step stop assms(3)
    by (auto simp: partition_next_def Let_def pad_chunk_def nat_diff_distrib)
qed

lemma produces_partition:
  assumes "produces nxt s ys" "0 < n"
  shows "produces (partition_next nxt) (partition_init n s pad)
           (partition_spec (nat n) (pad_option pad) ys)"
  using assms(1)
proof (induction "length ys" arbitrary: ys s rule: less_induct)
  case less
  consider (empty) "ys = []" | (short) "ys \<noteq> []" "length ys < nat n" | (full) "nat n \<le> length ys"
    by fastforce
  then show ?case
  proof cases
    case empty
    from less.prems empty obtain s' where "nxt s = Stop s'" "nxt s' = Stop s'"
      by (auto elim: produces_NilE)
    with assms(2) empty show ?thesis
      by (auto intro: produces_stop simp: partition_next_exhausted)
  next
    case short
    from partition_next_short [OF less.prems short, of pad] obtain s' where
      stop: "nxt s' = Stop s'" and
      step: "partition_next nxt (partition_init n s pad)
               = (if pad \<noteq> NO_PAD then Yield (pad_chunk (nat n) pad ys) (partition_init n s' pad)
                  else Stop (partition_init n s' pad))" by blast
    have again: "partition_next nxt (partition_init n s' pad) = Stop (partition_init n s' pad)"
      using stop assms(2) by (rule partition_next_exhausted)
    then have "produces (partition_next nxt) (partition_init n s' pad) []"
      by (rule produces_stop) (rule again)
    with step again short show ?thesis
      by (auto simp: partition_spec_short intro: produces_yield produces_stop)
  next
    case full
    from partition_next_full [OF less.prems full assms(2), of pad] obtain s' where
      step: "partition_next nxt (partition_init n s pad)
               = Yield (take (nat n) ys) (partition_init n s' pad)"
      and rest: "produces nxt s' (drop (nat n) ys)" by blast
    have "length (drop (nat n) ys) < length ys"
      using assms(2) full by simp
    then have "produces (partition_next nxt) (partition_init n s' pad)
                 (partition_spec (nat n) (pad_option pad) (drop (nat n) ys))"
      using less.hyps rest by blast
    with step full assms(2) show ?thesis
      by (simp add: produces_yield partition_spec_full_step)
  qed
qed

lemma partition_next_cases:
  assumes "produces nxt s ys" "0 < n"
  shows "(\<exists>s'. partition_next nxt (partition_init n s pad) = Stop (partition_init n s' pad)
              \<and> nxt s' = Stop s')
       \<or> (\<exists>c s' zs. partition_next nxt (partition_init n s pad) = Yield c (partition_init n s' pad)
              \<and> produces nxt s' zs)"
proof -
  consider (empty) "ys = []" | (short) "ys \<noteq> []" "length ys < nat n" | (full) "nat n \<le> length ys"
    by fastforce
  then show ?thesis
  proof cases
    case empty
    with assms(1) obtain s' where "nxt s = Stop s'" "nxt s' = Stop s'"
      by (auto elim: produces_NilE)
    with assms(2) show ?thesis by (auto simp: partition_next_exhausted)
  next
    case short
    from partition_next_short [OF assms(1) short, of pad] obtain s' where
      stop: "nxt s' = Stop s'" and
      step: "partition_next nxt (partition_init n s pad)
               = (if pad \<noteq> NO_PAD then Yield (pad_chunk (nat n) pad ys) (partition_init n s' pad)
                  else Stop (partition_init n s' pad))" by blast
    have "produces nxt s' []" using stop stop by (rule produces_stop)
    with step stop show ?thesis by (cases "pad = NO_PAD") auto
  next
    case full
    from partition_next_full [OF assms(1) full assms(2), of pad] show ?thesis by blast
  qed
qed

lemma reachable_partition_produces:
  assumes "reachable (partition_next nxt) (partition_init n s pad) st"
    and "produces nxt s ys" "0 < n"
  shows "\<exists>s' zs. st = partition_init n s' pad \<and> produces nxt s' zs"
  using assms(1)
proof (induction rule: reachable.induct)
  case reach_init
  then show ?case using assms(2) by blast
next
  case (reach_yield st a st')
  then obtain s' zs where "st = partition_init n s' pad" "produces nxt s' zs" by blast
  with reach_yield.hyps(2) partition_next_cases [of nxt s' zs n pad] assms(3) show ?case
    by auto
next
  case (reach_stop st st')
  then obtain s' zs where "st = partition_init n s' pad" "produces nxt s' zs" by blast
  with reach_stop.hyps(2) partition_next_cases [of nxt s' zs n pad] assms(3) show ?case
    by (auto intro: produces_stop)
qed

lemma partition_next_Yield_wf:
  assumes "partition_wf st" "partition_next nxt st = Yield c st'"
  shows "int (length c) = p_n st \<and> partition_wf st' \<and> p_n st' = p_n st \<and> p_pad st' = p_pad st"
proof -
  obtain items pa' where inner: "partition_all_next nxt (p_partition_all st) = Yield items pa'"
    and st': "st' = st\<lparr>p_partition_all := pa'\<rparr>"
    and c: "c = (if int (length items) < p_n st
                 then items @ replicate (nat (p_n st - int (length items))) (p_pad st) else items)"
    using assms(2) by (auto simp: partition_next_def Let_def split: pull.splits if_splits)
  from partition_all_next_Yield [OF inner] assms(1) have
    "items \<noteq> []" "length items \<le> nat (p_n st)" "pa_n pa' = p_n st"
    by (auto simp: partition_wf_def)
  then have "int (length items) \<le> p_n st"
    by (cases "0 < p_n st") auto
  with c st' \<open>pa_n pa' = p_n st\<close> show ?thesis by (auto simp: partition_wf_def)
qed

lemma partition_next_Stop_wf:
  assumes "partition_wf st" "partition_next nxt st = Stop st'"
  shows "partition_wf st' \<and> p_n st' = p_n st \<and> p_pad st' = p_pad st"
proof (cases "partition_all_next nxt (p_partition_all st)")
  case (Yield items pa')
  with assms(2) have "st' = st\<lparr>p_partition_all := pa'\<rparr>"
    by (auto simp: partition_next_def Let_def split: if_splits)
  with partition_all_next_Yield [OF Yield] assms(1) show ?thesis by (simp add: partition_wf_def)
next
  case (Stop pa')
  with assms(2) have "st' = st\<lparr>p_partition_all := pa'\<rparr>"
    by (simp add: partition_next_def)
  with partition_all_next_Stop [OF Stop] assms(1) show ?thesis by (simp add: partition_wf_def)
next
  case (Raise e)
  with assms(2) show ?thesis by (simp add: partition_next_def)
qed

lemma reachable_partition_wf:
  "reachable (partition_next nxt) (partition_init n s pad) st \<Longrightarrow>
   partition_wf st \<and> p_n st = n \<and> p_pad st = pad"
proof (induction rule: reachable.induct)
  case reach_init
  show ?case by (simp add: partition_wf_def)
next
  case (reach_yield st a st')
  then show ?case using partition_next_Yield_wf by metis
next
  case (reach_stop st st')
  then show ?case using partition_next_Stop_wf by metis
qed

lemma partition_next_inner:
  "partition_next nxt st = Yield c st' \<Longrightarrow>
     \<exists>r. partition_all_next nxt (p_partition_all st) = Yield r (p_partition_all st')"
  "partition_next nxt st = Stop st' \<Longrightarrow>
     (\<exists>r. partition_all_next nxt (p_partition_all st) = Yield r (p_partition_all st'))
     \<or> partition_all_next nxt (p_partition_all st) = Stop (p_partition_all st')"
  by (auto simp: partition_next_def Let_def split: pull.splits if_splits)

lemma reachable_partition_inner:
  "reachable (partition_next nxt) st0 st \<Longrightarrow>
   reachable (partition_all_next nxt) (p_partition_all st0) (p_partition_all st)"
proof (induction rule: reachable.induct)
  case reach_init
  show ?case by (rule reachable.reach_init)
next
  case (reach_yield st c st')
  with partition_next_inner(1) [OF reach_yield.hyps(2)] show ?case
    by (blast intro: reachable.reach_yield)
next
  case (reach_stop st st')
  with partition_next_inner(2) [OF reach_stop.hyps(2)] show ?case
    by (blast intro: reachable.reach_yield reachable.reach_stop)
qed

lemma raises_partition:
  assumes "raises nxt s ys e" "0 < n"
  shows "raises (partition_next nxt) (partition_init n s pad)
           (take (length ys div nat n) (chunks (nat n) ys)) e"
  using assms(1)
proof (induction "length ys" arbitrary: ys s rule: less_induct)
  case less
  from partition_all_next_raises [OF less.prems assms(2)] show ?case
  proof (elim disjE conjE exE)
    assume "length ys < nat n" "partition_all_next nxt \<lparr>pa_n = n, pa_seq = s\<rparr> = Raise e"
    then show ?case by (simp add: raises_now partition_next_def)
  next
    fix s'
    assume long: "nat n \<le> length ys"
      and step: "partition_all_next nxt \<lparr>pa_n = n, pa_seq = s\<rparr>
                   = Yield (take (nat n) ys) \<lparr>pa_n = n, pa_seq = s'\<rparr>"
      and rest: "raises nxt s' (drop (nat n) ys) e"
    have "length (drop (nat n) ys) < length ys"
      using assms(2) long by simp
    then have "raises (partition_next nxt) (partition_init n s' pad)
                 (take ((length ys - nat n) div nat n) (chunks (nat n) (drop (nat n) ys))) e"
      using less.hyps rest by fastforce
    moreover have "partition_next nxt (partition_init n s pad)
                     = Yield (take (nat n) ys) (partition_init n s' pad)"
      using step long assms(2) by (simp add: partition_next_def)
    ultimately show ?case
      using long assms(2) by (simp add: raises_yield full_chunks_step)
  qed
qed

lemma drain_partition_iter_seq:
  "0 < n \<Longrightarrow>
   drain (partition_next list_iter_next) (partition_init n (iter_seq xs) pad)
     = Some (Inr (partition_spec (nat n) (pad_option pad) xs))"
  by (rule drain_produces [OF produces_partition [OF produces_iter_seq]])

lemma partition_spec_None: "partition_spec n None xs = take (length xs div n) (chunks n xs)"
  by (simp add: partition_spec_def takeWhile_full_chunks)

lemma partition_spec_Some: "partition_spec n (Some p) xs = map (pad_chunk n p) (chunks n xs)"
  by (simp add: partition_spec_def)

subsection \<open>Properties of \<open>partition\<close>\<close>

text \<open>
  C2: \<open>list(partition(n, seq))\<close> without a pad returns, and returns the full chunks of
  \<open>partition_all(n, seq)\<close>: the first \<open>len(seq) // n\<close> of them; a short last chunk
  is dropped.
\<close>

theorem partition_no_pad_list:
  "0 < n \<Longrightarrow>
   drain (partition_next list_iter_next) (partition_init n (iter_seq xs) NO_PAD)
     = Some (Inr (take (length xs div nat n) (chunks (nat n) xs)))"
  by (simp add: drain_partition_iter_seq partition_spec_None)

theorem partition_no_pad_list_witness:
  "(0::int) < 2 \<and>
   drain (partition_next list_iter_next) (partition_init 2 (iter_seq [PyInt 1, PyInt 2, PyInt 3, PyInt 4, PyInt 5]) NO_PAD)
     = (Some (Inr [[PyInt 1, PyInt 2], [PyInt 3, PyInt 4]]) :: (unit + unit pyobj list list) option)"
  using partition_no_pad_list [of 2 "[PyInt 1, PyInt 2, PyInt 3, PyInt 4, PyInt 5]"] by simp

text \<open>
  C3: \<open>list(partition(n, seq, pad=p))\<close> with a pad returns every chunk of
  \<open>partition_all(n, seq)\<close>, the short last one extended with copies of \<open>p\<close> to
  length \<open>n\<close>.
\<close>

theorem partition_pad_list:
  "0 < n \<Longrightarrow> pad \<noteq> NO_PAD \<Longrightarrow>
   drain (partition_next list_iter_next) (partition_init n (iter_seq xs) pad)
     = Some (Inr (map (pad_chunk (nat n) pad) (chunks (nat n) xs)))"
  by (simp add: drain_partition_iter_seq partition_spec_Some)

theorem partition_pad_list_witness:
  "(0::int) < 2 \<and> (PyNone :: unit pyobj) \<noteq> NO_PAD \<and>
   drain (partition_next list_iter_next) (partition_init 2 (iter_seq [PyInt 1, PyInt 2, PyInt 3, PyInt 4, PyInt 5]) PyNone)
     = (Some (Inr [[PyInt 1, PyInt 2], [PyInt 3, PyInt 4], [PyInt 5, PyNone]])
          :: (unit + unit pyobj list list) option)"
  using partition_pad_list [of 2 PyNone "[PyInt 1, PyInt 2, PyInt 3, PyInt 4, PyInt 5]"]
  by (simp add: NO_PAD_def pad_chunk_def)

text \<open>
  C7: without a pad, \<open>partition(n, seq)\<close> returns \<open>len(seq) // n\<close> chunks, each of
  exactly \<open>n\<close> elements, which together are the first \<open>(len(seq) // n) * n\<close>
  elements of \<open>seq\<close>.
\<close>

theorem partition_no_pad_shape:
  "0 < n \<Longrightarrow>
   \<exists>cs. drain (partition_next list_iter_next) (partition_init n (iter_seq xs) NO_PAD) = Some (Inr cs)
        \<and> length cs = length xs div nat n
        \<and> (\<forall>c \<in> set cs. length c = nat n)
        \<and> concat cs = take (length xs div nat n * nat n) xs"
proof -
  assume n: "0 < n"
  let ?cs = "take (length xs div nat n) (chunks (nat n) xs)"
  have "drain (partition_next list_iter_next) (partition_init n (iter_seq xs) NO_PAD) = Some (Inr ?cs)"
    using n by (simp add: drain_partition_iter_seq partition_spec_None)
  moreover have "length ?cs = length xs div nat n"
    using n by (simp only: length_full_chunks zero_less_nat_eq)
  moreover have "\<forall>c \<in> set ?cs. length c = nat n"
    using full_chunks_length by blast
  moreover have "concat ?cs = take (length xs div nat n * nat n) xs"
    using n by (simp only: concat_take_chunks zero_less_nat_eq)
  ultimately show ?thesis by blast
qed

theorem partition_no_pad_shape_witness:
  "(0::int) < 3 \<and>
   (\<exists>cs. drain (partition_next list_iter_next)
            (partition_init 3 (iter_seq [PyInt 1, PyInt 2, PyInt 3, PyInt 4, PyInt 5, PyInt 6, PyInt 7]) NO_PAD)
          = (Some (Inr cs) :: (unit + unit pyobj list list) option)
        \<and> length cs = 2 \<and> (\<forall>c \<in> set cs. length c = 3)
        \<and> concat cs = [PyInt 1, PyInt 2, PyInt 3, PyInt 4, PyInt 5, PyInt 6])"
proof -
  have d: "(drain (partition_next list_iter_next)
            (partition_init 3 (iter_seq [PyInt 1, PyInt 2, PyInt 3, PyInt 4, PyInt 5, PyInt 6, PyInt 7]) NO_PAD)
          :: (unit + unit pyobj list list) option)
     = Some (Inr [[PyInt 1, PyInt 2, PyInt 3], [PyInt 4, PyInt 5, PyInt 6]])"
    by (simp add: drain_partition_iter_seq partition_spec_None)
  show ?thesis
    using partition_no_pad_shape [of 3 "[PyInt 1, PyInt 2, PyInt 3, PyInt 4, PyInt 5, PyInt 6, PyInt 7]"] d
    by simp
qed

text \<open>
  C8: with a pad \<open>p\<close>, \<open>partition(n, seq, pad=p)\<close> returns \<open>ceil(len(seq) / n)\<close>
  chunks, each of exactly \<open>n\<close> elements; together they are \<open>seq\<close> followed by
  \<open>(n - len(seq) mod n) mod n\<close> copies of \<open>p\<close>, so the trailing positions of the last
  chunk hold \<open>p\<close> exactly when \<open>n\<close> does not divide \<open>len(seq)\<close>.
\<close>

theorem partition_pad_shape:
  "0 < n \<Longrightarrow> pad \<noteq> NO_PAD \<Longrightarrow>
   \<exists>cs. drain (partition_next list_iter_next) (partition_init n (iter_seq xs) pad) = Some (Inr cs)
        \<and> length cs = (length xs + nat n - 1) div nat n
        \<and> (\<forall>c \<in> set cs. length c = nat n)
        \<and> concat cs = xs @ replicate ((nat n - length xs mod nat n) mod nat n) pad"
proof -
  assume n: "0 < n" and pad: "pad \<noteq> NO_PAD"
  let ?cs = "map (pad_chunk (nat n) pad) (chunks (nat n) xs)"
  have "drain (partition_next list_iter_next) (partition_init n (iter_seq xs) pad) = Some (Inr ?cs)"
    using n pad by (simp add: drain_partition_iter_seq partition_spec_Some)
  moreover have "length ?cs = (length xs + nat n - 1) div nat n"
    using n by (simp only: length_map length_chunks zero_less_nat_eq)
  moreover have "\<forall>c \<in> set ?cs. length c = nat n"
    using chunks_length_le length_pad_chunk by fastforce
  moreover have "concat ?cs = xs @ replicate ((nat n - length xs mod nat n) mod nat n) pad"
    using n by (simp only: concat_pad_chunks zero_less_nat_eq)
  ultimately show ?thesis by blast
qed

theorem partition_pad_shape_witness:
  "(0::int) < 3 \<and> (PyNone :: unit pyobj) \<noteq> NO_PAD \<and>
   (\<exists>cs. drain (partition_next list_iter_next)
            (partition_init 3 (iter_seq [PyInt 1, PyInt 2, PyInt 3, PyInt 4]) PyNone)
          = (Some (Inr cs) :: (unit + unit pyobj list list) option)
        \<and> length cs = 2 \<and> (\<forall>c \<in> set cs. length c = 3)
        \<and> concat cs = [PyInt 1, PyInt 2, PyInt 3, PyInt 4, PyNone, PyNone])"
proof -
  have d: "(drain (partition_next list_iter_next)
            (partition_init 3 (iter_seq [PyInt 1, PyInt 2, PyInt 3, PyInt 4]) PyNone)
          :: (unit + unit pyobj list list) option)
     = Some (Inr [[PyInt 1, PyInt 2, PyInt 3], [PyInt 4, PyNone, PyNone]])"
    by (simp add: drain_partition_iter_seq partition_spec_Some NO_PAD_def pad_chunk_def numeral_eq_Suc)
  show ?thesis
    using partition_pad_shape [of 3 PyNone "[PyInt 1, PyInt 2, PyInt 3, PyInt 4]"] d
    by (simp add: NO_PAD_def)
qed

text \<open>
  C9: when \<open>n\<close> divides the length of the input, neither the padding nor the dropping
  branch is taken: \<open>partition(n, seq)\<close>, with or without a pad, returns the same chunks
  as \<open>partition_all(n, seq)\<close>.
\<close>

theorem partition_exact_multiple:
  "0 < n \<Longrightarrow> nat n dvd length xs \<Longrightarrow>
   drain (partition_next list_iter_next) (partition_init n (iter_seq xs) pad)
     = drain (partition_all_next list_iter_next) (partition_all_init n (iter_seq xs))"
  by (simp add: drain_partition_iter_seq drain_partition_all_iter_seq partition_spec_dvd)

theorem partition_exact_multiple_witness:
  "(0::int) < 2 \<and> nat 2 dvd length [PyInt 1, PyInt (2::int), PyInt 3, PyInt 4] \<and>
   (drain (partition_next list_iter_next) (partition_init 2 (iter_seq [PyInt 1, PyInt 2, PyInt 3, PyInt 4]) PyNone)
      :: (unit + unit pyobj list list) option)
     = drain (partition_all_next list_iter_next) (partition_all_init 2 (iter_seq [PyInt 1, PyInt 2, PyInt 3, PyInt 4]))"
  using partition_exact_multiple [of 2 "[PyInt 1, PyInt 2, PyInt 3, PyInt 4]" PyNone] by simp

text \<open>
  C11: over any source that meets the iterator contract, \<open>partition\<close> meets it too,
  producing the specified chunks: the full chunks without a pad, all chunks padded to
  \<open>n\<close> with one.
\<close>

theorem partition_refines:
  "produces nxt s ys \<Longrightarrow> 0 < n \<Longrightarrow>
   produces (partition_next nxt) (partition_init n s pad)
     (partition_spec (nat n) (if pad = NO_PAD then None else Some pad) ys)"
  by (rule produces_partition)

theorem partition_refines_witness:
  "produces gen_next \<lparr>gi_items = [PyInt 1, PyInt (2::int), PyInt 3], gi_exc = (None :: unit option)\<rparr>
     [PyInt 1, PyInt 2, PyInt 3] \<and> (0::int) < 2 \<and>
   produces (partition_next gen_next)
     (partition_init 2 \<lparr>gi_items = [PyInt 1, PyInt (2::int), PyInt 3], gi_exc = (None :: unit option)\<rparr> NO_PAD)
     [[PyInt 1, PyInt 2]]"
proof -
  have src: "produces gen_next \<lparr>gi_items = [PyInt 1, PyInt (2::int), PyInt 3], gi_exc = (None :: unit option)\<rparr>
     [PyInt 1, PyInt 2, PyInt 3]"
    by (rule produces_gen_iter)
  show ?thesis using partition_refines [OF src, of 2 NO_PAD] src by (simp add: partition_spec_def)
qed

text \<open>
  C13: like \<open>partition_all\<close>, \<open>partition\<close> accepts a chunk size of zero or less and
  returns nothing, whatever the source and the pad.
\<close>

theorem partition_nonpos:
  "n \<le> 0 \<Longrightarrow> drain (partition_next nxt) (partition_init n s pad) = Some (Inr [])"
  by (simp add: drain.simps partition_next_def partition_all_next_nonpos)

theorem partition_nonpos_witness:
  "(-1::int) \<le> 0 \<and>
   drain (partition_next gen_next)
     (partition_init (-1) \<lparr>gi_items = [PyInt (1::int)], gi_exc = Some ()\<rparr> PyNone) = Some (Inr [])"
  using partition_nonpos [of "-1" gen_next "\<lparr>gi_items = [PyInt (1::int)], gi_exc = Some ()\<rparr>" PyNone]
  by simp

text \<open>
  C15: an exception raised by the source propagates out of \<open>partition\<close> unchanged, with
  or without a pad: the chunks returned before it are the complete chunks preceding the
  fault, and an incomplete chunk is neither padded nor returned.
\<close>

theorem partition_fault:
  assumes "raises nxt s ys e" "0 < n"
  shows "raises (partition_next nxt) (partition_init n s pad)
           (take (length ys div nat n) (chunks (nat n) ys)) e
         \<and> drain (partition_next nxt) (partition_init n s pad) = Some (Inl e)"
proof -
  have "raises (partition_next nxt) (partition_init n s pad)
          (take (length ys div nat n) (chunks (nat n) ys)) e"
    using assms by (rule raises_partition)
  then show ?thesis by (simp add: drain_raises)
qed

theorem partition_fault_witness:
  "raises gen_next \<lparr>gi_items = [PyInt 1 :: unit pyobj, PyInt 2, PyInt 3], gi_exc = Some ''boom''\<rparr>
     [PyInt 1, PyInt 2, PyInt 3] ''boom'' \<and> (0::int) < 2 \<and>
   raises (partition_next gen_next)
     (partition_init 2 \<lparr>gi_items = [PyInt 1 :: unit pyobj, PyInt 2, PyInt 3], gi_exc = Some ''boom''\<rparr> PyNone)
     [[PyInt 1, PyInt 2]] ''boom''
   \<and> drain (partition_next gen_next)
       (partition_init 2 \<lparr>gi_items = [PyInt 1 :: unit pyobj, PyInt 2, PyInt 3], gi_exc = Some ''boom''\<rparr> PyNone)
     = Some (Inl ''boom'')"
proof -
  have src: "raises gen_next \<lparr>gi_items = [PyInt 1 :: unit pyobj, PyInt 2, PyInt 3], gi_exc = Some ''boom''\<rparr>
     [PyInt 1, PyInt 2, PyInt 3] ''boom''"
    by (rule raises_gen_iter)
  show ?thesis using partition_fault [OF src, of 2 PyNone] src by simp
qed

text \<open>
  C17: exhaustion of \<open>partition\<close> is final, also after it dropped a short last chunk:
  over a source that meets the iterator contract, once a reachable state signals
  \<open>StopIteration\<close>, the state it leaves signals it again and does not change.
\<close>

theorem partition_exhausted_terminal:
  assumes "produces nxt s ys" "0 < n"
    and "reachable (partition_next nxt) (partition_init n s pad) st"
    and "partition_next nxt st = Stop st'"
  shows "partition_next nxt st' = Stop st'"
proof -
  have "\<exists>s' zs. st = partition_init n s' pad \<and> produces nxt s' zs"
    using assms(3,1,2) by (rule reachable_partition_produces)
  then obtain s' zs where st: "st = partition_init n s' pad" and p: "produces nxt s' zs"
    by blast
  from partition_next_cases [OF p assms(2), of pad] assms(4) st obtain s'' where
    "st' = partition_init n s'' pad" "nxt s'' = Stop s''" by auto
  with assms(2) show ?thesis by (simp add: partition_next_exhausted)
qed

theorem partition_exhausted_terminal_witness:
  "produces (list_iter_next :: (unit pyobj list_iter, unit pyobj, unit) next_fn) (iter_seq [PyInt 1, PyInt 2, PyInt 3]) [PyInt 1, PyInt 2, PyInt 3] \<and> (0::int) < 2
   \<and> reachable (partition_next (list_iter_next :: (unit pyobj list_iter, unit pyobj, unit) next_fn)) (partition_init 2 (iter_seq [PyInt 1, PyInt 2, PyInt 3]) NO_PAD) (partition_init 2 \<lparr>li_seq = [PyInt 1, PyInt 2, PyInt 3], li_pos = 2\<rparr> NO_PAD)
   \<and> partition_next (list_iter_next :: (unit pyobj list_iter, unit pyobj, unit) next_fn) (partition_init 2 \<lparr>li_seq = [PyInt 1, PyInt 2, PyInt 3], li_pos = 2\<rparr> NO_PAD) = Stop (partition_init 2 \<lparr>li_seq = [PyInt 1, PyInt 2, PyInt 3], li_pos = 3\<rparr> NO_PAD)
   \<and> partition_next (list_iter_next :: (unit pyobj list_iter, unit pyobj, unit) next_fn) (partition_init 2 \<lparr>li_seq = [PyInt 1, PyInt 2, PyInt 3], li_pos = 3\<rparr> NO_PAD) = Stop (partition_init 2 \<lparr>li_seq = [PyInt 1, PyInt 2, PyInt 3], li_pos = 3\<rparr> NO_PAD)"
proof -
  have src: "produces (list_iter_next :: (unit pyobj list_iter, unit pyobj, unit) next_fn) (iter_seq [PyInt 1, PyInt 2, PyInt 3]) [PyInt 1, PyInt 2, PyInt 3]"
    by (rule produces_iter_seq)
  have step0: "partition_next (list_iter_next :: (unit pyobj list_iter, unit pyobj, unit) next_fn) (partition_init 2 (iter_seq [PyInt 1, PyInt 2, PyInt 3]) NO_PAD)
      = Yield [PyInt 1, PyInt 2] (partition_init 2 \<lparr>li_seq = [PyInt 1, PyInt 2, PyInt 3], li_pos = 2\<rparr> NO_PAD)"
    by (simp add: partition_next_def partition_init_def partition_all_init_def iter_seq_def
                  partition_all_next_list_iter)
  have reach: "reachable (partition_next (list_iter_next :: (unit pyobj list_iter, unit pyobj, unit) next_fn)) (partition_init 2 (iter_seq [PyInt 1, PyInt 2, PyInt 3]) NO_PAD) (partition_init 2 \<lparr>li_seq = [PyInt 1, PyInt 2, PyInt 3], li_pos = 2\<rparr> NO_PAD)"
    using reach_init step0 by (rule reach_yield)
  have stop: "partition_next (list_iter_next :: (unit pyobj list_iter, unit pyobj, unit) next_fn) (partition_init 2 \<lparr>li_seq = [PyInt 1, PyInt 2, PyInt 3], li_pos = 2\<rparr> NO_PAD) = Stop (partition_init 2 \<lparr>li_seq = [PyInt 1, PyInt 2, PyInt 3], li_pos = 3\<rparr> NO_PAD)"
    by (simp add: partition_next_def partition_init_def partition_all_init_def NO_PAD_def
                  partition_all_next_list_iter)
  show ?thesis
    using partition_exhausted_terminal [OF src _ reach stop] src reach stop by simp
qed

text \<open>
  C21: every chunk \<open>partition(n, seq, pad)\<close> returns has exactly \<open>n\<close> elements, over
  any source, also one whose exhaustion is not final, and with or without a pad. The
  reason is the well-formedness of the state, \<open>partition_wf\<close>: its own \<open>_n\<close> and the
  \<open>_n\<close> of its inner \<open>partition_all\<close> agree in every reachable state, so a chunk is
  never longer than \<open>n\<close> and a shorter one is padded to \<open>n\<close> or dropped.
\<close>

theorem partition_chunks_exact:
  assumes "reachable (partition_next nxt) (partition_init n s pad) st"
    and "partition_next nxt st = Yield c st'"
  shows "int (length c) = n"
  using reachable_partition_wf [OF assms(1)] partition_next_Yield_wf [OF _ assms(2)] by simp

theorem partition_chunks_exact_witness:
  "reachable (partition_next (flaky_next :: (unit pyobj flaky_iter, unit pyobj, unit) next_fn)) (partition_init 2 \<lparr>fl_before = [PyInt 1], fl_after = [PyInt 4], fl_stopped = False\<rparr> PyNone)
     (partition_init 2 \<lparr>fl_before = [PyInt 1], fl_after = [PyInt 4], fl_stopped = False\<rparr> PyNone)
   \<and> partition_next (flaky_next :: (unit pyobj flaky_iter, unit pyobj, unit) next_fn) (partition_init 2 \<lparr>fl_before = [PyInt 1], fl_after = [PyInt 4], fl_stopped = False\<rparr> PyNone)
       = Yield [PyInt 1, PyNone] (partition_init 2 \<lparr>fl_before = [], fl_after = [PyInt 4], fl_stopped = True\<rparr> PyNone)
   \<and> int (length [PyInt 1 :: unit pyobj, PyNone]) = 2"
proof -
  have reach: "reachable (partition_next (flaky_next :: (unit pyobj flaky_iter, unit pyobj, unit) next_fn)) (partition_init 2 \<lparr>fl_before = [PyInt 1], fl_after = [PyInt 4], fl_stopped = False\<rparr> PyNone)
     (partition_init 2 \<lparr>fl_before = [PyInt 1], fl_after = [PyInt 4], fl_stopped = False\<rparr> PyNone)" by (rule reach_init)
  have step: "partition_next (flaky_next :: (unit pyobj flaky_iter, unit pyobj, unit) next_fn) (partition_init 2 \<lparr>fl_before = [PyInt 1], fl_after = [PyInt 4], fl_stopped = False\<rparr> PyNone)
       = Yield [PyInt 1, PyNone] (partition_init 2 \<lparr>fl_before = [], fl_after = [PyInt 4], fl_stopped = True\<rparr> PyNone)"
    by (simp add: partition_next_def partition_init_def partition_all_next_def partition_all_init_def
                  flaky_next_def NO_PAD_def numeral_eq_Suc)
  show ?thesis using partition_chunks_exact [OF reach step] reach step by simp
qed

text \<open>
  C22: \<open>list(partition_all(n, src))\<close> and \<open>list(partition(n, src, pad))\<close> return, for
  every chunk size (also zero or less) and every pad, whenever the source either yields
  finitely many values and stops or yields finitely many values and raises: the result is
  the list of chunks or the exception, never a loop.
\<close>

theorem partition_list_returns:
  assumes "(\<exists>ys. produces nxt s ys) \<or> (\<exists>ys e. raises nxt s ys e)"
  shows "drain (partition_all_next nxt) (partition_all_init n s) \<noteq> None
       \<and> drain (partition_next nxt) (partition_init n s pad) \<noteq> None"
proof (cases "0 < n")
  case False
  then show ?thesis
    by (simp add: drain.simps partition_next_def partition_all_next_nonpos partition_all_init_def)
next
  case True
  from assms show ?thesis
  proof (elim disjE exE)
    fix ys
    assume p: "produces nxt s ys"
    show ?thesis
      using drain_produces [OF produces_partition_all [OF p True]]
        drain_produces [OF produces_partition [OF p True, of pad]]
      by (simp add: partition_all_init_def)
  next
    fix ys e
    assume r: "raises nxt s ys e"
    show ?thesis
      using drain_raises [OF raises_partition_all [OF r True]]
        drain_raises [OF raises_partition [OF r True, of pad]]
      by (simp add: partition_all_init_def)
  qed
qed

theorem partition_list_returns_witness:
  "((\<exists>ys. produces gen_next \<lparr>gi_items = [PyInt 1 :: unit pyobj, PyInt 2, PyInt 3], gi_exc = Some ''boom''\<rparr> ys) \<or> (\<exists>ys e. raises gen_next \<lparr>gi_items = [PyInt 1 :: unit pyobj, PyInt 2, PyInt 3], gi_exc = Some ''boom''\<rparr> ys e))
   \<and> drain (partition_all_next gen_next) (partition_all_init 2 \<lparr>gi_items = [PyInt 1 :: unit pyobj, PyInt 2, PyInt 3], gi_exc = Some ''boom''\<rparr>) \<noteq> None
   \<and> drain (partition_next gen_next) (partition_init 2 \<lparr>gi_items = [PyInt 1 :: unit pyobj, PyInt 2, PyInt 3], gi_exc = Some ''boom''\<rparr> PyNone) \<noteq> None"
proof -
  have src: "(\<exists>ys. produces gen_next \<lparr>gi_items = [PyInt 1 :: unit pyobj, PyInt 2, PyInt 3], gi_exc = Some ''boom''\<rparr> ys) \<or> (\<exists>ys e. raises gen_next \<lparr>gi_items = [PyInt 1 :: unit pyobj, PyInt 2, PyInt 3], gi_exc = Some ''boom''\<rparr> ys e)"
    using raises_gen_iter [of "[PyInt 1 :: unit pyobj, PyInt 2, PyInt 3]" "''boom''"] by blast
  show ?thesis using partition_list_returns [OF src, of 2 PyNone] src by blast
qed

text \<open>
  C28: chunk boundaries of \<open>partition\<close> over a sequence stay aligned. In every state
  \<open>partition(n, seq, pad)\<close> reaches, its inner \<open>partition_all\<close> stands at a multiple of
  \<open>n\<close> or at the end of \<open>seq\<close>, and each chunk it returns is the slice
  \<open>seq[k*n : k*n + n]\<close> for some \<open>k\<close>, padded with \<open>pad\<close> when it is short. The proof
  projects the reachable states of \<open>partition\<close> onto reachable states of its inner
  \<open>partition_all\<close>, whose alignment is \<open>reachable_aligned\<close>.
\<close>

theorem partition_aligned:
  assumes "reachable (partition_next (list_iter_next :: ('a pyobj list_iter, 'a pyobj, 'e) next_fn)) (partition_init n (iter_seq xs) pad) st"
    and "partition_next (list_iter_next :: ('a pyobj list_iter, 'a pyobj, 'e) next_fn) st = Yield c st'"
  shows "aligned n xs (p_partition_all st)
         \<and> (\<exists>k. c = pad_chunk (nat n) pad (take (nat n) (drop (k * nat n) xs)))"
proof -
  have "reachable (partition_all_next (list_iter_next :: ('a pyobj list_iter, 'a pyobj, 'e) next_fn)) (partition_all_init n (iter_seq xs)) (p_partition_all st)"
    using reachable_partition_inner [OF assms(1)] by (simp add: partition_all_init_def)
  then have al: "aligned n xs (p_partition_all st)" by (rule reachable_aligned)
  have inv: "p_n st = n" "p_pad st = pad"
    using reachable_partition_wf [OF assms(1)] by simp_all
  define i where "i = li_pos (pa_seq (p_partition_all st))"
  have pa: "p_partition_all st = \<lparr>pa_n = n, pa_seq = \<lparr>li_seq = xs, li_pos = i\<rparr>\<rparr>"
    using aligned_eq [OF al] by (simp add: i_def)
  have i: "i \<le> length xs" "nat n dvd i \<or> i = length xs"
    using al by (simp_all add: aligned_def i_def)
  from assms(2) i(1) have run: "0 < n" "i < length xs"
    and c: "c = (if int (length (take (nat n) (drop i xs))) < n
                 then take (nat n) (drop i xs) @ replicate (nat (n - int (length (take (nat n) (drop i xs))))) pad
                 else take (nat n) (drop i xs))"
    by (auto simp: partition_next_def pa partition_all_next_list_iter inv Let_def split: if_splits)
  from i run have "nat n dvd i" by auto
  then obtain k where "i = nat n * k" by (rule dvdE)
  then have k: "i = k * nat n" by (simp add: mult.commute)
  have "c = pad_chunk (nat n) pad (take (nat n) (drop i xs))"
    using c run by (auto simp: pad_chunk_def nat_diff_distrib)
  with al k show ?thesis by blast
qed

theorem partition_aligned_witness:
  "reachable (partition_next (list_iter_next :: (unit pyobj list_iter, unit pyobj, unit) next_fn)) (partition_init 2 (iter_seq [PyInt 1 :: unit pyobj, PyInt 2, PyInt 3]) PyNone) (partition_init 2 \<lparr>li_seq = [PyInt 1 :: unit pyobj, PyInt 2, PyInt 3], li_pos = 2\<rparr> PyNone)
   \<and> partition_next (list_iter_next :: (unit pyobj list_iter, unit pyobj, unit) next_fn) (partition_init 2 \<lparr>li_seq = [PyInt 1 :: unit pyobj, PyInt 2, PyInt 3], li_pos = 2\<rparr> PyNone) = Yield [PyInt 3 :: unit pyobj, PyNone] (partition_init 2 \<lparr>li_seq = [PyInt 1 :: unit pyobj, PyInt 2, PyInt 3], li_pos = 3\<rparr> PyNone)
   \<and> aligned 2 [PyInt 1 :: unit pyobj, PyInt 2, PyInt 3] (p_partition_all (partition_init 2 \<lparr>li_seq = [PyInt 1 :: unit pyobj, PyInt 2, PyInt 3], li_pos = 2\<rparr> (PyNone :: unit pyobj)))
   \<and> (\<exists>k. [PyInt 3 :: unit pyobj, PyNone] = pad_chunk (nat 2) PyNone (take (nat 2) (drop (k * nat 2) [PyInt 1 :: unit pyobj, PyInt 2, PyInt 3])))"
proof -
  have step0: "partition_next (list_iter_next :: (unit pyobj list_iter, unit pyobj, unit) next_fn) (partition_init 2 (iter_seq [PyInt 1 :: unit pyobj, PyInt 2, PyInt 3]) PyNone)
      = Yield [PyInt 1, PyInt 2] (partition_init 2 \<lparr>li_seq = [PyInt 1 :: unit pyobj, PyInt 2, PyInt 3], li_pos = 2\<rparr> PyNone)"
    by (simp add: partition_next_def partition_init_def partition_all_init_def iter_seq_def
                  partition_all_next_list_iter)
  have reach: "reachable (partition_next (list_iter_next :: (unit pyobj list_iter, unit pyobj, unit) next_fn)) (partition_init 2 (iter_seq [PyInt 1 :: unit pyobj, PyInt 2, PyInt 3]) PyNone) (partition_init 2 \<lparr>li_seq = [PyInt 1 :: unit pyobj, PyInt 2, PyInt 3], li_pos = 2\<rparr> PyNone)"
    using reach_init step0 by (rule reach_yield)
  have step1: "partition_next (list_iter_next :: (unit pyobj list_iter, unit pyobj, unit) next_fn) (partition_init 2 \<lparr>li_seq = [PyInt 1 :: unit pyobj, PyInt 2, PyInt 3], li_pos = 2\<rparr> PyNone) = Yield [PyInt 3 :: unit pyobj, PyNone] (partition_init 2 \<lparr>li_seq = [PyInt 1 :: unit pyobj, PyInt 2, PyInt 3], li_pos = 3\<rparr> PyNone)"
    by (simp add: partition_next_def partition_init_def partition_all_init_def NO_PAD_def
                  partition_all_next_list_iter)
  note c = partition_aligned [OF reach step1]
  show ?thesis
    by (intro conjI reach step1 conjunct1 [OF c] conjunct2 [OF c])
qed

end
