(* ===== verification/Lifecycle.thy ===== *)
theory Lifecycle
  imports Partition
begin

text \<open>
  The lifecycle the spec's design notes give a resumable iterator (section 9): a state
  machine with the phases constructed, producing and exhausted, whose state is the phase
  and the elements still to come. \<open>lifecycle_next n\<close> is its step for a chunk size
  \<open>n\<close>: outside the exhausted phase it returns the next \<open>n\<close> elements and moves to
  producing, and with nothing left it signals exhaustion and stays exhausted for good.
  \<open>lifecycle_sim\<close> relates a state of \<open>partition_all\<close> to a state of the machine: the
  same chunk size, a source that will yield exactly the elements still to come, and in the
  exhausted phase a source whose exhaustion is a fixpoint. The lemmas show that this is a
  lock-step simulation: every call of \<open>__next__\<close> is matched by a step of the machine
  with the same result, so every reachable state of \<open>partition_all\<close> corresponds to a
  reachable state of the machine. \<open>partition_lifecycle_next\<close> is the same machine with
  the pad policy of \<open>partition\<close> (an optional pad: a short last chunk is padded, or with
  no pad dropped in favour of exhaustion), and \<open>partition_lifecycle_sim\<close> relates
  \<open>partition\<close> to it in the same way.
\<close>

datatype phase = Constructed | Producing | Exhausted

record 'a lifecycle =
  lc_phase :: phase
  lc_rest :: "'a list"

definition lifecycle_init :: "'a list \<Rightarrow> 'a lifecycle" where
  "lifecycle_init ys = \<lparr>lc_phase = Constructed, lc_rest = ys\<rparr>"

definition lifecycle_next :: "nat \<Rightarrow> ('a lifecycle, 'a list, 'e) next_fn" where
  "lifecycle_next n a =
     (if lc_phase a = Exhausted \<or> lc_rest a = []
      then Stop \<lparr>lc_phase = Exhausted, lc_rest = []\<rparr>
      else Yield (take n (lc_rest a)) \<lparr>lc_phase = Producing, lc_rest = drop n (lc_rest a)\<rparr>)"

definition lifecycle_sim ::
  "('s, 'a, 'e) next_fn \<Rightarrow> int \<Rightarrow> 's partition_all_st \<Rightarrow> 'a lifecycle \<Rightarrow> bool" where
  "lifecycle_sim nxt n st a \<longleftrightarrow>
     pa_n st = n \<and> produces nxt (pa_seq st) (lc_rest a)
     \<and> (lc_phase a = Exhausted \<longrightarrow> lc_rest a = [] \<and> nxt (pa_seq st) = Stop (pa_seq st))"

definition partition_lifecycle_next :: "nat \<Rightarrow> 'a option \<Rightarrow> ('a lifecycle, 'a list, 'e) next_fn" where
  "partition_lifecycle_next n pad a =
     (if lc_phase a = Exhausted \<or> lc_rest a = [] \<or> (length (lc_rest a) < n \<and> pad = None)
      then Stop \<lparr>lc_phase = Exhausted, lc_rest = []\<rparr>
      else Yield (case pad of None \<Rightarrow> take n (lc_rest a) | Some p \<Rightarrow> pad_chunk n p (take n (lc_rest a)))
                 \<lparr>lc_phase = Producing, lc_rest = drop n (lc_rest a)\<rparr>)"

definition partition_lifecycle_sim ::
  "('s, 'a pyobj, 'e) next_fn \<Rightarrow> int \<Rightarrow> 'a pyobj \<Rightarrow> ('s, 'a) partition_st \<Rightarrow> 'a pyobj lifecycle \<Rightarrow> bool" where
  "partition_lifecycle_sim nxt n pad st a \<longleftrightarrow>
     (\<exists>s. st = partition_init n s pad \<and> produces nxt s (lc_rest a)
          \<and> (lc_phase a = Exhausted \<longrightarrow> lc_rest a = [] \<and> nxt s = Stop s))"

lemma lifecycle_sim_step:
  assumes "lifecycle_sim nxt n st a" "0 < n"
  shows "case partition_all_next nxt st of
           Yield c st' \<Rightarrow> \<exists>a'. lifecycle_next (nat n) a = Yield c a' \<and> lifecycle_sim nxt n st' a'
         | Stop st' \<Rightarrow> \<exists>a'. lifecycle_next (nat n) a = Stop a' \<and> lifecycle_sim nxt n st' a'
         | Raise e \<Rightarrow> False"
proof -
  have st: "st = \<lparr>pa_n = n, pa_seq = pa_seq st\<rparr>" and p: "produces nxt (pa_seq st) (lc_rest a)"
    using assms(1) by (simp_all add: lifecycle_sim_def)
  show ?thesis
  proof (cases "lc_phase a = Exhausted")
    case True
    with assms(1) have "nxt (pa_seq st) = Stop (pa_seq st)" "lc_rest a = []"
      by (simp_all add: lifecycle_sim_def)
    moreover have "partition_all_next nxt st = Stop st"
      using partition_all_next_exhausted [of nxt "pa_seq st" "pa_seq st" n] \<open>nxt (pa_seq st) = Stop (pa_seq st)\<close> assms(2) st
      by simp
    ultimately show ?thesis using True assms(1)
      by (simp add: lifecycle_next_def lifecycle_sim_def produces_stop)
  next
    case False
    from partition_all_next_cases [OF p assms(2)] show ?thesis
    proof (elim disjE conjE exE)
      fix s'
      assume "lc_rest a = []" "partition_all_next nxt \<lparr>pa_n = n, pa_seq = pa_seq st\<rparr> = Stop \<lparr>pa_n = n, pa_seq = s'\<rparr>"
        "nxt s' = Stop s'"
      then show ?thesis using False
        by (subst st) (simp add: lifecycle_next_def lifecycle_sim_def produces_stop)
    next
      fix s'
      assume "lc_rest a \<noteq> []"
        "partition_all_next nxt \<lparr>pa_n = n, pa_seq = pa_seq st\<rparr>
           = Yield (take (nat n) (lc_rest a)) \<lparr>pa_n = n, pa_seq = s'\<rparr>"
        "produces nxt s' (drop (nat n) (lc_rest a))"
      then show ?thesis using False
        by (subst st) (simp add: lifecycle_next_def lifecycle_sim_def)
    qed
  qed
qed

lemma reachable_lifecycle_sim:
  fixes nxt :: "('s, 'a, 'e) next_fn"
  assumes "produces nxt s ys" "0 < n"
    and "reachable (partition_all_next nxt) (partition_all_init n s) st"
  shows "\<exists>a. reachable (lifecycle_next (nat n) :: ('a lifecycle, 'a list, 'e) next_fn) (lifecycle_init ys) a
             \<and> lifecycle_sim nxt n st a"
  using assms(3)
proof (induction rule: reachable.induct)
  case reach_init
  show ?case using assms(1)
    by (intro exI [of _ "lifecycle_init ys"])
       (simp add: reachable.reach_init lifecycle_sim_def lifecycle_init_def partition_all_init_def)
next
  case (reach_yield st c st')
  then obtain a where r: "reachable (lifecycle_next (nat n) :: ('a lifecycle, 'a list, 'e) next_fn) (lifecycle_init ys) a"
    and sim: "lifecycle_sim nxt n st a" by blast
  from lifecycle_sim_step [OF sim assms(2)] reach_yield.hyps(2) r show ?case
    by (auto intro: reachable.reach_yield)
next
  case (reach_stop st st')
  then obtain a where r: "reachable (lifecycle_next (nat n) :: ('a lifecycle, 'a list, 'e) next_fn) (lifecycle_init ys) a"
    and sim: "lifecycle_sim nxt n st a" by blast
  from lifecycle_sim_step [OF sim assms(2)] reach_stop.hyps(2) r show ?case
    by (auto intro: reachable.reach_stop)
qed

lemma partition_lifecycle_sim_step:
  assumes "partition_lifecycle_sim nxt n pad st a" "0 < n"
  shows "case partition_next nxt st of
           Yield c st' \<Rightarrow> \<exists>a'. partition_lifecycle_next (nat n) (pad_option pad) a = Yield c a'
                              \<and> partition_lifecycle_sim nxt n pad st' a'
         | Stop st' \<Rightarrow> \<exists>a'. partition_lifecycle_next (nat n) (pad_option pad) a = Stop a'
                              \<and> partition_lifecycle_sim nxt n pad st' a'
         | Raise e \<Rightarrow> False"
proof -
  obtain s where st: "st = partition_init n s pad" and p: "produces nxt s (lc_rest a)"
    and ex: "lc_phase a = Exhausted \<longrightarrow> lc_rest a = [] \<and> nxt s = Stop s"
    using assms(1) by (auto simp: partition_lifecycle_sim_def)
  consider (exhausted) "lc_phase a = Exhausted"
    | (empty) "lc_phase a \<noteq> Exhausted" "lc_rest a = []"
    | (short) "lc_phase a \<noteq> Exhausted" "lc_rest a \<noteq> []" "length (lc_rest a) < nat n"
    | (full) "lc_phase a \<noteq> Exhausted" "nat n \<le> length (lc_rest a)"
    by fastforce
  then show ?thesis
  proof cases
    case exhausted
    with ex assms(2) show ?thesis
      by (auto simp: st partition_next_exhausted partition_lifecycle_next_def
                     partition_lifecycle_sim_def intro: produces_stop)
  next
    case empty
    with p obtain s' where "nxt s = Stop s'" "nxt s' = Stop s'"
      by (auto elim: produces_NilE)
    with empty assms(2) show ?thesis
      by (auto simp: st partition_next_exhausted partition_lifecycle_next_def
                     partition_lifecycle_sim_def intro: produces_stop)
  next
    case short
    from partition_next_short [OF p short(2,3), of pad] obtain s' where
      stop: "nxt s' = Stop s'" and
      step: "partition_next nxt (partition_init n s pad)
               = (if pad \<noteq> NO_PAD then Yield (pad_chunk (nat n) pad (lc_rest a)) (partition_init n s' pad)
                  else Stop (partition_init n s' pad))" by blast
    have "produces nxt s' []" using stop stop by (rule produces_stop)
    with short stop step show ?thesis
      by (auto simp: st partition_lifecycle_next_def partition_lifecycle_sim_def)
  next
    case full
    from partition_next_full [OF p full(2) assms(2), of pad] obtain s' where
      step: "partition_next nxt (partition_init n s pad)
               = Yield (take (nat n) (lc_rest a)) (partition_init n s' pad)"
      and rest: "produces nxt s' (drop (nat n) (lc_rest a))" by blast
    have "pad_chunk (nat n) p (take (nat n) (lc_rest a)) = take (nat n) (lc_rest a)" for p
      using full(2) by (simp add: pad_chunk_def)
    with full step rest assms(2) show ?thesis
      by (auto simp: st partition_lifecycle_next_def partition_lifecycle_sim_def split: option.split)
  qed
qed

lemma reachable_partition_lifecycle_sim:
  fixes nxt :: "('s, 'a pyobj, 'e) next_fn"
  assumes "produces nxt s ys" "0 < n"
    and "reachable (partition_next nxt) (partition_init n s pad) st"
  shows "\<exists>a. reachable (partition_lifecycle_next (nat n) (pad_option pad)
                  :: ('a pyobj lifecycle, 'a pyobj list, 'e) next_fn) (lifecycle_init ys) a
             \<and> partition_lifecycle_sim nxt n pad st a"
  using assms(3)
proof (induction rule: reachable.induct)
  case reach_init
  show ?case using assms(1)
    by (intro exI [of _ "lifecycle_init ys"])
       (auto simp: reachable.reach_init partition_lifecycle_sim_def lifecycle_init_def)
next
  case (reach_yield st c st')
  then obtain a where r: "reachable (partition_lifecycle_next (nat n) (pad_option pad)
                  :: ('a pyobj lifecycle, 'a pyobj list, 'e) next_fn) (lifecycle_init ys) a"
    and sim: "partition_lifecycle_sim nxt n pad st a" by blast
  from partition_lifecycle_sim_step [OF sim assms(2)] reach_yield.hyps(2) obtain a' where
    "(partition_lifecycle_next (nat n) (pad_option pad) :: ('a pyobj lifecycle, 'a pyobj list, 'e) next_fn) a = Yield c a'" "partition_lifecycle_sim nxt n pad st' a'" by auto
  with r show ?case by (blast intro: reachable.reach_yield)
next
  case (reach_stop st st')
  then obtain a where r: "reachable (partition_lifecycle_next (nat n) (pad_option pad)
                  :: ('a pyobj lifecycle, 'a pyobj list, 'e) next_fn) (lifecycle_init ys) a"
    and sim: "partition_lifecycle_sim nxt n pad st a" by blast
  from partition_lifecycle_sim_step [OF sim assms(2)] reach_stop.hyps(2) obtain a' where
    "(partition_lifecycle_next (nat n) (pad_option pad) :: ('a pyobj lifecycle, 'a pyobj list, 'e) next_fn) a = Stop a'" "partition_lifecycle_sim nxt n pad st' a'" by auto
  with r show ?case by (blast intro: reachable.reach_stop)
qed

subsection \<open>Refinement of the lifecycle\<close>

text \<open>
  C26: \<open>partition_all\<close> over a source that yields \<open>ys\<close> and then stops implements the
  lifecycle of the spec's design notes. Each state it reaches corresponds to a state the
  machine reaches from (constructed, \<open>ys\<close>), and the next call of \<open>__next__\<close> is a step
  of the machine: the same chunk, or \<open>StopIteration\<close> exactly when the machine moves to or
  stays in the exhausted phase; it never raises.
\<close>

theorem partition_all_refines_lifecycle:
  fixes nxt :: "('s, 'a, 'e) next_fn"
  assumes "produces nxt s ys" "0 < n"
    and "reachable (partition_all_next nxt) (partition_all_init n s) st"
  shows "\<exists>a. reachable (lifecycle_next (nat n) :: ('a lifecycle, 'a list, 'e) next_fn) (lifecycle_init ys) a
             \<and> (case partition_all_next nxt st of
                  Yield c st' \<Rightarrow> \<exists>a'. lifecycle_next (nat n) a = Yield c a' \<and> lifecycle_sim nxt n st' a'
                | Stop st' \<Rightarrow> \<exists>a'. lifecycle_next (nat n) a = Stop a' \<and> lifecycle_sim nxt n st' a'
                | Raise e \<Rightarrow> False)"
  using reachable_lifecycle_sim [OF assms] lifecycle_sim_step [OF _ assms(2)] by blast

theorem partition_all_refines_lifecycle_witness:
  "produces gen_next \<lparr>gi_items = [1::int, 2, 3], gi_exc = (None :: unit option)\<rparr> [1, 2, 3] \<and> (0::int) < 2
   \<and> reachable (partition_all_next gen_next) (partition_all_init 2 \<lparr>gi_items = [1::int, 2, 3], gi_exc = (None :: unit option)\<rparr>)
        (partition_all_init 2 \<lparr>gi_items = [1::int, 2, 3], gi_exc = (None :: unit option)\<rparr>)
   \<and> (\<exists>a. reachable (lifecycle_next (nat 2) :: (int lifecycle, int list, unit) next_fn) (lifecycle_init [1, 2, 3]) a
        \<and> (case partition_all_next gen_next (partition_all_init 2 \<lparr>gi_items = [1::int, 2, 3], gi_exc = (None :: unit option)\<rparr>) of
             Yield c st' \<Rightarrow> \<exists>a'. lifecycle_next (nat 2) a = Yield c a' \<and> lifecycle_sim gen_next 2 st' a'
           | Stop st' \<Rightarrow> \<exists>a'. lifecycle_next (nat 2) a = Stop a' \<and> lifecycle_sim gen_next 2 st' a'
           | Raise e \<Rightarrow> False))"
proof -
  have src: "produces gen_next \<lparr>gi_items = [1::int, 2, 3], gi_exc = (None :: unit option)\<rparr> [1, 2, 3]"
    by (rule produces_gen_iter)
  have reach: "reachable (partition_all_next gen_next)
      (partition_all_init 2 \<lparr>gi_items = [1::int, 2, 3], gi_exc = (None :: unit option)\<rparr>)
      (partition_all_init 2 \<lparr>gi_items = [1::int, 2, 3], gi_exc = (None :: unit option)\<rparr>)"
    by (rule reach_init)
  have n: "(0::int) < 2" by simp
  show ?thesis using partition_all_refines_lifecycle [OF src n reach] src n reach by blast
qed

text \<open>
  C27: \<open>partition\<close> over a source that yields \<open>ys\<close> and then stops implements the
  lifecycle with the pad policy of the spec (section 4.2): a full chunk passes, a short
  last chunk is padded when a pad was given and otherwise turns into exhaustion, and
  exhaustion is final. Each reachable state corresponds to a reachable state of the
  machine started at \<open>ys\<close>, and the next call is a step of the machine with the same
  result; it never raises.
\<close>

theorem partition_refines_lifecycle:
  fixes nxt :: "('s, 'a pyobj, 'e) next_fn"
  assumes "produces nxt s ys" "0 < n"
    and "reachable (partition_next nxt) (partition_init n s pad) st"
  shows "\<exists>a. reachable (partition_lifecycle_next (nat n) (pad_option pad)
                  :: ('a pyobj lifecycle, 'a pyobj list, 'e) next_fn) (lifecycle_init ys) a
             \<and> (case partition_next nxt st of
                  Yield c st' \<Rightarrow> \<exists>a'. (partition_lifecycle_next (nat n) (pad_option pad) :: ('a pyobj lifecycle, 'a pyobj list, 'e) next_fn) a = Yield c a'
                                     \<and> partition_lifecycle_sim nxt n pad st' a'
                | Stop st' \<Rightarrow> \<exists>a'. (partition_lifecycle_next (nat n) (pad_option pad) :: ('a pyobj lifecycle, 'a pyobj list, 'e) next_fn) a = Stop a'
                                     \<and> partition_lifecycle_sim nxt n pad st' a'
                | Raise e \<Rightarrow> False)"
  using reachable_partition_lifecycle_sim [OF assms] partition_lifecycle_sim_step [OF _ assms(2)]
  by blast

theorem partition_refines_lifecycle_witness:
  "produces (list_iter_next :: (unit pyobj list_iter, unit pyobj, unit) next_fn)
     (iter_seq [PyInt 1, PyInt 2, PyInt 3]) [PyInt 1, PyInt 2, PyInt 3] \<and> (0::int) < 2
   \<and> reachable (partition_next (list_iter_next :: (unit pyobj list_iter, unit pyobj, unit) next_fn))
        (partition_init 2 (iter_seq [PyInt 1, PyInt 2, PyInt 3]) NO_PAD)
        (partition_init 2 (iter_seq [PyInt 1, PyInt 2, PyInt 3]) NO_PAD)
   \<and> (\<exists>a. reachable (partition_lifecycle_next (nat 2) (pad_option NO_PAD)
                  :: (unit pyobj lifecycle, unit pyobj list, unit) next_fn)
            (lifecycle_init [PyInt 1, PyInt 2, PyInt 3]) a
        \<and> (case partition_next (list_iter_next :: (unit pyobj list_iter, unit pyobj, unit) next_fn)
                 (partition_init 2 (iter_seq [PyInt 1, PyInt 2, PyInt 3]) NO_PAD) of
             Yield c st' \<Rightarrow> \<exists>a'. (partition_lifecycle_next (nat 2) (pad_option NO_PAD) :: (unit pyobj lifecycle, unit pyobj list, unit) next_fn) a = Yield c a'
                                \<and> partition_lifecycle_sim (list_iter_next :: (unit pyobj list_iter, unit pyobj, unit) next_fn) 2 NO_PAD st' a'
           | Stop st' \<Rightarrow> \<exists>a'. (partition_lifecycle_next (nat 2) (pad_option NO_PAD) :: (unit pyobj lifecycle, unit pyobj list, unit) next_fn) a = Stop a'
                                \<and> partition_lifecycle_sim (list_iter_next :: (unit pyobj list_iter, unit pyobj, unit) next_fn) 2 NO_PAD st' a'
           | Raise e \<Rightarrow> False))"
proof -
  have src: "produces (list_iter_next :: (unit pyobj list_iter, unit pyobj, unit) next_fn)
     (iter_seq [PyInt 1, PyInt 2, PyInt 3]) [PyInt 1, PyInt 2, PyInt 3]"
    by (rule produces_iter_seq)
  have reach: "reachable (partition_next (list_iter_next :: (unit pyobj list_iter, unit pyobj, unit) next_fn))
        (partition_init 2 (iter_seq [PyInt 1, PyInt 2, PyInt 3]) NO_PAD)
        (partition_init 2 (iter_seq [PyInt 1, PyInt 2, PyInt 3]) NO_PAD)"
    by (rule reach_init)
  have n: "(0::int) < 2" by simp
  show ?thesis using partition_refines_lifecycle [OF src n reach] src n reach by blast
qed

end
