(* ===== verification/Spec2Isabelle.thy ===== *)
theory Spec2Isabelle
  imports Shared_Source Lifecycle
begin

text \<open>
  \<^bold>\<open>Verification of picklable-itertools' chunking iterators.\<close>

  \<^emph>\<open>The program.\<close> \<open>src/picklable_itertools/extras.py\<close> defines two iterator classes
  built on the package's resumable iterator base (\<open>BaseItertool\<close>, \<open>base.py\<close>) and its
  dispatch helper \<open>_iter\<close> (\<open>iter_dispatch.py\<close>):
  \<^item> \<open>partition_all(n, seq)\<close> wraps \<open>seq\<close> with \<open>_iter\<close> and, on each \<open>__next__\<close>,
    pulls at most \<open>n\<close> elements, stopping early at \<open>StopIteration\<close>; it returns them as a
    tuple, or raises \<open>StopIteration\<close> when it pulled none;
  \<^item> \<open>partition(n, seq, pad)\<close> owns a \<open>partition_all(n, seq)\<close>; a chunk shorter than
    \<open>n\<close> is padded with \<open>pad\<close> or, when \<open>pad\<close> equals the sentinel string
    \<open>'__no_pad__'\<close>, turned into \<open>StopIteration\<close>.
  \<open>base.py\<close> and \<open>iter_dispatch.py\<close> are not among the sources; what the transformers
  need of them (the iterator protocol and the iterator \<open>_iter\<close> makes of a sequence) is
  modelled from the spec.

  \<^emph>\<open>The theories.\<close>
  \<^item> \<open>Prelude\<close>: the outcome of a \<open>__next__\<close> call (\<open>pull\<close>: \<open>Yield\<close> a value and the
    new state, \<open>Stop\<close> for \<open>StopIteration\<close>, \<open>Raise\<close> for any other exception), Python
    values compared with the sentinel (\<open>pyobj\<close>), the collection \<open>iter_simps\<close>.
  \<^item> \<open>Iterator\<close> (spec-modelled): the iterator \<open>_iter\<close> makes of a sequence
    (\<open>list_iter\<close>, \<open>list_iter_next\<close>); Python's \<open>list(it)\<close> as \<open>drain\<close>, a
    \<^theory_text>\<open>partial_function (option)\<close> since an iterator need not end; the contract of a
    well-behaved source, \<open>produces nxt s ys\<close> (it yields \<open>ys\<close>, then signals exhaustion
    for good) and of a failing one, \<open>raises nxt s ys e\<close>; the states \<open>reachable\<close> by
    calls of \<open>__next__\<close>; \<open>advance\<close>, a consumer taking \<open>k\<close> values; two test
    sources that are not code of the repository: \<open>gen_iter\<close>, which yields and then
    raises, and \<open>flaky_iter\<close>, whose exhaustion is not final.
  \<^item> \<open>Chunk_Spec\<close>: the abstract specification, \<open>chunks n xs\<close> and \<open>partition_spec\<close>,
    with the facts the spec states of them (section 8).
  \<^item> \<open>Partition_All\<close>: the record \<open>partition_all_st\<close> (fields \<open>_n\<close>, \<open>_seq\<close>),
    \<open>partition_all_init\<close> (\<open>__init__\<close>, given the source \<open>_iter\<close> already made),
    \<open>fill\<close> (the \<open>for\<close> loop and its \<open>try\<close>) and \<open>partition_all_next\<close>
    (\<open>__next__\<close>), over any source \<open>nxt\<close>.
  \<^item> \<open>Partition\<close>: the record \<open>partition_st\<close> (fields \<open>_n\<close>, \<open>_partition_all\<close>,
    \<open>_pad\<close>), \<open>NO_PAD\<close>, \<open>partition_init\<close> and \<open>partition_next\<close>, which calls
    \<open>partition_all_next\<close> as the code calls \<open>next(self._partition_all)\<close>.
  \<^item> \<open>Shared_Source\<close>: a source shared by \<open>partition_all\<close> and the caller, who
    kept the iterator that \<open>_iter\<close> handed through: \<open>run_clients\<close> runs an
    interleaving of \<open>next(p)\<close> and \<open>next(it)\<close> on the one shared state.
  \<^item> \<open>Lifecycle\<close>: the spec's lifecycle of a resumable iterator (constructed, producing,
    exhausted) as an abstract machine \<open>lifecycle_next\<close>, and the simulation relation
    \<open>lifecycle_sim\<close> by which \<open>partition_all\<close> implements it; the same machine with the
    pad policy of \<open>partition\<close> (\<open>partition_lifecycle_next\<close>) and its simulation by
    \<open>partition\<close> (\<open>partition_lifecycle_sim\<close>).
  The components interact through the iterator interface \<open>('s, 'a, 'e) next_fn\<close>: each
  transformer is a \<open>next_fn\<close> over its own state, parameterised by the \<open>next_fn\<close> of its
  source, and the lemmas of a transformer assume only the contract (\<open>produces\<close> or
  \<open>raises\<close>) of its source, which \<open>list_iter\<close> and \<open>gen_iter\<close> discharge.

  \<^emph>\<open>What is proved.\<close> Refinement: over any source that \<open>produces ys\<close>,
  \<open>partition_all\<close> produces \<open>chunks n ys\<close> and \<open>partition\<close> produces
  \<open>partition_spec\<close> (full chunks without a pad, padded chunks with one); with
  \<open>drain_produces\<close> this says that \<open>list(...)\<close> returns and returns those lists. One
  call: \<open>partition_all\<close>'s \<open>__next__\<close> is characterised on each outcome over any source
  (a chunk is what that many source calls returned, non-empty and of at most \<open>n\<close>
  elements), and every chunk \<open>partition\<close> returns from a reachable state has exactly
  \<open>n\<close> elements over any source, by the well-formedness \<open>partition_wf\<close> of its state.
  From the specification: the chunks concatenate back to the input, all but the last have
  \<open>n\<close> elements, there are \<open>ceil(len/n)\<close> of them (\<open>len // n\<close> without a pad),
  padding fills exactly the missing positions, and an input whose length \<open>n\<close> divides
  makes \<open>partition\<close> and \<open>partition_all\<close> agree. Termination and liveness: \<open>list()\<close>
  of either transformer returns for every \<open>n\<close> over a source that stops or raises, and
  from every reachable state \<open>partition_all\<close> reaches exhaustion within
  \<open>ceil(len/n)\<close> calls. Errors: a non-positive \<open>n\<close> yields nothing (the spec asks for
  a failure), a source's exception propagates and the incomplete chunk is lost. State:
  chunk boundaries stay aligned with multiples of \<open>n\<close> in every reachable state of either
  transformer, and exhaustion is final for both. Composition: a transformer is itself a
  source meeting the contract, so \<open>partition_all\<close> over \<open>partition_all\<close> or over
  \<open>partition\<close> produces chunks of chunks. Sharing: a source shared with the caller loses
  and duplicates no element under any interleaving. Lifecycle: every reachable state of
  \<open>partition_all\<close> and of \<open>partition\<close> over a well-behaved source is simulated by a
  reachable state of the spec's lifecycle machine (with the pad policy for
  \<open>partition\<close>), call for call.

  \<^emph>\<open>Findings without a theorem.\<close> Some facts recorded in the manifest are single runs,
  not theorems: a pad equal to the string \<open>'__no_pad__'\<close> is taken for "no pad" (the
  comparison is by equality); over a source that resumes after \<open>StopIteration\<close>,
  \<open>partition_all\<close> returns a short chunk mid-stream and \<open>partition\<close> stops and then
  yields again; a source shared with the caller shifts the chunk boundaries. Each is seen
  by evaluating the definitions here on the input the manifest names.

  \<^emph>\<open>Bounds and fuel.\<close> None is needed: \<open>fill\<close> recurses on the count
  \<open>nat n\<close> of \<open>xrange(n)\<close>, \<open>run_clients\<close> and \<open>advance\<close> on their explicit
  call lists, and \<open>drain\<close> is a partial function whose termination is proved from the
  source's contract.

  \<^emph>\<open>Not modelled.\<close> Pickling (\<open>BaseItertool\<close>, \<open>base.py\<close>, not among the sources):
  the objects are pickled by default as their class and fields, and every field a
  transformer reads is one \<open>__init__\<close> sets, so a model whose state is those fields makes
  restore after capture the identity by construction; the property that could fail, state
  kept outside the pickled fields, is not expressible in such a model, so no theorem about
  it is stated. \<open>_iter\<close> beyond the sequence iterator (its module is not among the
  sources; the transformers are proved for any source meeting the iterator contract,
  which covers an iterator handed through). The docstrings' examples (single runs of the
  theorems above). \<open>partition\<close> over another transformer, whose tuples would have to be
  Python objects compared with the sentinel: \<open>pyobj\<close> has no tuple values. Python
  objects whose \<open>__eq__\<close> differs from structural equality, \<open>n\<close> of a non-integer type,
  and the \<open>six\<close> shim, which the code only calls (\<open>xrange(n)\<close> is the count of
  \<open>fill\<close>).
\<close>

text \<open>
  C19: transformers compose through the iterator interface. \<open>_iter\<close> hands an iterator
  through unchanged, so \<open>partition_all(n, partition_all(m, seq))\<close> pulls whole chunks
  from the inner transformer; \<open>list()\<close> of it returns, and returns the chunks of
  \<open>n\<close> chunks of \<open>m\<close> elements.
\<close>

theorem nested_partition_all:
  assumes "0 < n" "0 < m"
  shows "drain (partition_all_next (partition_all_next (list_iter_next :: ('a list_iter, 'a, 'e) next_fn)))
           (partition_all_init n (partition_all_init m (iter_seq xs)))
         = Some (Inr (chunks (nat n) (chunks (nat m) xs)))"
  unfolding partition_all_init_def
  by (rule drain_produces [OF produces_partition_all [OF produces_partition_all [OF produces_iter_seq assms(2)] assms(1)]])

theorem nested_partition_all_witness:
  "(0::int) < 2 \<and> (0::int) < 2 \<and>
   drain (partition_all_next (partition_all_next (list_iter_next :: (int list_iter, int, unit) next_fn)))
     (partition_all_init 2 (partition_all_init 2 (iter_seq [1::int, 2, 3, 4, 5])))
   = Some (Inr [[[1, 2], [3, 4]], [[5]]])"
  using nested_partition_all [of 2 2 "[1::int, 2, 3, 4, 5]"] by simp

text \<open>
  C24: the other nesting, \<open>partition_all(m, partition(n, seq, pad))\<close>: the outer
  transformer takes the inner one's tuples as its elements, and \<open>list()\<close> of it returns the
  chunks of \<open>m\<close> of the specified chunks of \<open>partition\<close>, full or padded.
\<close>

theorem partition_all_over_partition:
  assumes "0 < n" "0 < m"
  shows "drain (partition_all_next (partition_next (list_iter_next :: ('a pyobj list_iter, 'a pyobj, 'e) next_fn)))
           (partition_all_init m (partition_init n (iter_seq xs) pad))
         = Some (Inr (chunks (nat m) (partition_spec (nat n) (pad_option pad) xs)))"
  unfolding partition_all_init_def
  by (rule drain_produces [OF produces_partition_all [OF produces_partition [OF produces_iter_seq assms(1)] assms(2)]])

theorem partition_all_over_partition_witness:
  "(0::int) < 2 \<and> (0::int) < 2 \<and>
   drain (partition_all_next (partition_next (list_iter_next :: (unit pyobj list_iter, unit pyobj, unit) next_fn)))
     (partition_all_init 2 (partition_init 2 (iter_seq [PyInt 1, PyInt 2, PyInt 3, PyInt 4, PyInt 5]) PyNone))
   = Some (Inr [[[PyInt 1, PyInt 2], [PyInt 3, PyInt 4]], [[PyInt 5, PyNone]]])"
  using partition_all_over_partition [of 2 2 "[PyInt 1, PyInt 2, PyInt 3, PyInt 4, PyInt 5]" PyNone]
  by (simp add: partition_spec_def NO_PAD_def pad_chunk_def)

end
